theory Spec2Isabelle
  imports Complex_Main "HOL-Library.Word" "HOL-Library.Monad_Syntax"
begin

section \<open>Regions (Utils.h, Utils.cpp)\<close>

text \<open>
  A \<open>Region\<close> is the struct of four \<open>int\<close> fields with inclusive bounds. The
  coordinates are modelled as mathematical integers: signed overflow is undefined in
  C++, so the model covers the executions in which \<open>col2 + 1\<close>, \<open>row1 + row2\<close> and
  the like stay inside the range of \<open>int\<close>, as they do for every region of a raster.
\<close>

record Region =
  row1 :: int
  col1 :: int
  row2 :: int
  col2 :: int

definition mkRegion :: "int \<Rightarrow> int \<Rightarrow> int \<Rightarrow> int \<Rightarrow> Region" where
  "mkRegion r1 c1 r2 c2 = \<lparr>row1 = r1, col1 = c1, row2 = r2, col2 = c2\<rparr>"

definition area :: "Region \<Rightarrow> int" where
  "area r = (row2 r - row1 r + 1) * (col2 r - col1 r + 1)"

definition isValid :: "Region \<Rightarrow> bool" where
  "isValid r \<longleftrightarrow> row1 r \<le> row2 r \<and> col1 r \<le> col2 r"

definition contains :: "Region \<Rightarrow> int \<Rightarrow> int \<Rightarrow> bool" where
  "contains r row col \<longleftrightarrow> row \<ge> row1 r \<and> row \<le> row2 r \<and> col \<ge> col1 r \<and> col \<le> col2 r"

text \<open>\<open>Region::isAdjacentTo\<close>, with its three early returns in the source's order.\<close>

definition isAdjacentTo :: "Region \<Rightarrow> Region \<Rightarrow> bool" where
  "isAdjacentTo this other =
     (let xOverlap = \<not> (col2 this < col1 other \<or> col2 other < col1 this);
          yOverlap = \<not> (row2 this < row1 other \<or> row2 other < row1 this)
      in if xOverlap \<and> yOverlap then False
         else if yOverlap \<and> (col2 this + 1 = col1 other \<or> col2 other + 1 = col1 this) then True
         else if xOverlap \<and> (row2 this + 1 = row1 other \<or> row2 other + 1 = row1 this) then True
         else False)"

text \<open>
  Integer division of C++ truncates towards zero, where \<open>div\<close> of HOL rounds down.
\<close>

definition cdiv :: "int \<Rightarrow> int \<Rightarrow> int" where
  "cdiv a b = sgn a * sgn b * (\<bar>a\<bar> div \<bar>b\<bar>)"

section \<open>Quadrant split (RegionTree.cpp)\<close>

text \<open>
  \<open>RegionTree::splitRegion\<close> fills the array \<open>quadrants[4]\<close> in the order NW, NE, SW,
  SE; the model returns the four regions as a list in that order.
\<close>

definition splitRegion :: "Region \<Rightarrow> Region list" where
  "splitRegion region =
     (let midRow = cdiv (row1 region + row2 region) 2;
          midCol = cdiv (col1 region + col2 region) 2
      in [mkRegion (row1 region) (col1 region) midRow midCol,
          mkRegion (row1 region) (midCol + 1) midRow (col2 region),
          mkRegion (midRow + 1) (col1 region) (row2 region) midCol,
          mkRegion (midRow + 1) (midCol + 1) (row2 region) (col2 region)])"

definition regionHeight :: "Region \<Rightarrow> int" where
  "regionHeight r = row2 r - row1 r + 1"

definition regionWidth :: "Region \<Rightarrow> int" where
  "regionWidth r = col2 r - col1 r + 1"

section \<open>Prefix sums (PrefixSum.h, PrefixSum.cpp)\<close>

text \<open>
  Undefined behaviour of the C++ code is a value of the model: an out-of-range read of a
  vector, a write through an invalidated reference, \<open>top()\<close> or \<open>pop()\<close> on an empty
  priority queue, an integer division by zero, and the \<open>length_error\<close> that
  \<open>reserve\<close> throws. A function that can reach one of them returns \<open>error + 'a\<close>.
\<close>

datatype error = OutOfRange | DanglingReference | EmptyQueue | DivisionByZero | LengthError

definition ebind :: "error + 'a \<Rightarrow> ('a \<Rightarrow> error + 'b) \<Rightarrow> error + 'b" where
  "ebind m f = (case m of Inl e \<Rightarrow> Inl e | Inr x \<Rightarrow> f x)"

text \<open>
  A pixel is a \<open>uint8_t\<close>, a table entry an \<open>int64_t\<close>. Table entries are 64-bit
  words, so that sums wrap around where the hardware's would; the index arithmetic
  (\<open>int\<close> in the source) is on mathematical integers.
\<close>

type_synonym Pixel = "8 word"
type_synonym Matrix = "Pixel list list"
type_synonym int64 = "64 word"
type_synonym PrefixMatrix = "int64 list list"

text \<open>Checked element access \<open>v[i]\<close> and \<open>m[i][j]\<close>.\<close>

definition vec_at :: "'a list \<Rightarrow> int \<Rightarrow> error + 'a" where
  "vec_at xs i = (if 0 \<le> i \<and> i < int (length xs) then Inr (xs ! nat i) else Inl OutOfRange)"

definition vec_at2 :: "'a list list \<Rightarrow> int \<Rightarrow> int \<Rightarrow> error + 'a" where
  "vec_at2 m i j = ebind (vec_at m i) (\<lambda>row. vec_at row j)"

text \<open>
  The state of a \<open>PrefixSum\<close> object. Its double-valued members (\<open>globalMean\<close>,
  \<open>globalVariance\<close>, \<open>globalStdDev\<close>) are left out: no integer result depends on
  them.
\<close>

record PrefixSum =
  height :: int
  width :: int
  built :: bool
  prefix :: PrefixMatrix
  prefixSquares :: PrefixMatrix
  totalSum :: int64
  totalPixels :: int64

definition PrefixSum_new :: PrefixSum where
  "PrefixSum_new = \<lparr>height = 0, width = 0, built = False, prefix = [], prefixSquares = [],
     totalSum = 0, totalPixels = 0\<rparr>"

text \<open>The assignment \<open>m[i][j] = v\<close> to a table (always in range inside \<open>build\<close>).\<close>

definition set2 :: "'a list list \<Rightarrow> nat \<Rightarrow> nat \<Rightarrow> 'a \<Rightarrow> 'a list list" where
  "set2 m i j v = m[i := (m ! i)[j := v]]"

text \<open>
  The two nested loops of \<open>PrefixSum::build\<close>: \<open>build_cols\<close> is the inner loop over
  \<open>j\<close> from its current value to \<open>width\<close>, \<open>build_rows\<close> the outer loop over \<open>i\<close>.
  Both tables are updated in the same iteration. The read \<open>image[i-1][j-1]\<close> is
  checked: a raster whose rows are shorter than the first one makes it fail.
\<close>

function build_cols ::
  "Matrix \<Rightarrow> nat \<Rightarrow> nat \<Rightarrow> nat \<Rightarrow> PrefixMatrix \<times> PrefixMatrix \<Rightarrow> error + PrefixMatrix \<times> PrefixMatrix"
where
  "build_cols img w i j (p, q) =
     (if j \<le> w then
        (case vec_at2 img (int i - 1) (int j - 1) of
           Inl e \<Rightarrow> Inl e
         | Inr px \<Rightarrow>
             (let pixelValue = (ucast px :: int64) in
              build_cols img w i (j + 1)
                (set2 p i j (pixelValue + p ! (i - 1) ! j + p ! i ! (j - 1) - p ! (i - 1) ! (j - 1)),
                 set2 q i j (pixelValue * pixelValue + q ! (i - 1) ! j + q ! i ! (j - 1)
                             - q ! (i - 1) ! (j - 1)))))
      else Inr (p, q))"
  by pat_completeness auto
termination
  by (relation "measure (\<lambda>(img, w, i, j, pq). w + 1 - j)") auto

declare build_cols.simps [simp del]

function build_rows ::
  "Matrix \<Rightarrow> nat \<Rightarrow> nat \<Rightarrow> nat \<Rightarrow> PrefixMatrix \<times> PrefixMatrix \<Rightarrow> error + PrefixMatrix \<times> PrefixMatrix"
where
  "build_rows img h w i pq =
     (if i \<le> h then
        (case build_cols img w i 1 pq of
           Inl e \<Rightarrow> Inl e
         | Inr pq' \<Rightarrow> build_rows img h w (i + 1) pq')
      else Inr pq)"
  by pat_completeness auto
termination
  by (relation "measure (\<lambda>(img, h, w, i, pq). h + 1 - i)") auto

declare build_rows.simps [simp del]

definition build :: "PrefixSum \<Rightarrow> Matrix \<Rightarrow> error + PrefixSum" where
  "build ps img =
     (if img = [] \<or> img ! 0 = [] then Inr ps
      else
        (let h = length img; w = length (img ! 0);
             zeros = replicate (h + 1) (replicate (w + 1) 0)
         in case build_rows img h w 1 (zeros, zeros) of
              Inl e \<Rightarrow> Inl e
            | Inr (p, q) \<Rightarrow>
                Inr \<lparr>height = int h, width = int w, built = True, prefix = p, prefixSquares = q,
                     totalSum = p ! h ! w, totalPixels = word_of_nat h * word_of_nat w\<rparr>))"

text \<open>
  \<open>querySum(r1, c1, r2, c2)\<close> and \<open>querySumSquares(r1, c1, r2, c2)\<close> have the same
  text but for the table they read; \<open>query4\<close> is that text, with the table as a
  parameter.
\<close>

definition query4 :: "PrefixSum \<Rightarrow> PrefixMatrix \<Rightarrow> int \<Rightarrow> int \<Rightarrow> int \<Rightarrow> int \<Rightarrow> error + int64" where
  "query4 ps table r1 c1 r2 c2 =
     (if \<not> built ps then Inr 0
      else
        (let r1 = max 0 r1; c1 = max 0 c1;
             r2 = min (height ps - 1) r2; c2 = min (width ps - 1) c2
         in if r1 > r2 \<or> c1 > c2 then Inr 0
            else
              ebind (vec_at2 table (r2 + 1) (c2 + 1)) (\<lambda>a.
              ebind (vec_at2 table r1 (c2 + 1)) (\<lambda>b.
              ebind (vec_at2 table (r2 + 1) c1) (\<lambda>c.
              ebind (vec_at2 table r1 c1) (\<lambda>d. Inr (a - b - c + d)))))))"

definition querySum4 :: "PrefixSum \<Rightarrow> int \<Rightarrow> int \<Rightarrow> int \<Rightarrow> int \<Rightarrow> error + int64" where
  "querySum4 ps r1 c1 r2 c2 = query4 ps (prefix ps) r1 c1 r2 c2"

definition querySum :: "PrefixSum \<Rightarrow> Region \<Rightarrow> error + int64" where
  "querySum ps region = querySum4 ps (row1 region) (col1 region) (row2 region) (col2 region)"

definition querySumSquares4 :: "PrefixSum \<Rightarrow> int \<Rightarrow> int \<Rightarrow> int \<Rightarrow> int \<Rightarrow> error + int64" where
  "querySumSquares4 ps r1 c1 r2 c2 = query4 ps (prefixSquares ps) r1 c1 r2 c2"

definition querySumSquares :: "PrefixSum \<Rightarrow> Region \<Rightarrow> error + int64" where
  "querySumSquares ps region =
     querySumSquares4 ps (row1 region) (col1 region) (row2 region) (col2 region)"

text \<open>
  The brute-force sums that \<open>PrefixSum::verify\<close> computes, with its bounds check on
  every cell, and \<open>verify\<close> itself.
\<close>

definition bruteSum :: "Matrix \<Rightarrow> Region \<Rightarrow> int64" where
  "bruteSum img region =
     (\<Sum>r\<leftarrow>[row1 region..row2 region]. \<Sum>c\<leftarrow>[col1 region..col2 region].
        if r \<ge> 0 \<and> r < int (length img) \<and> c \<ge> 0 \<and> c < int (length (img ! 0))
        then ucast (img ! nat r ! nat c) else 0)"


definition bruteSumSquares :: "Matrix \<Rightarrow> Region \<Rightarrow> int64" where
  "bruteSumSquares img region =
     (\<Sum>r\<leftarrow>[row1 region..row2 region]. \<Sum>c\<leftarrow>[col1 region..col2 region].
        if r \<ge> 0 \<and> r < int (length img) \<and> c \<ge> 0 \<and> c < int (length (img ! 0))
        then ucast (img ! nat r ! nat c) * ucast (img ! nat r ! nat c) else 0)"

definition verify :: "PrefixSum \<Rightarrow> Matrix \<Rightarrow> Region \<Rightarrow> error + bool" where
  "verify ps img region =
     ebind (querySum ps region) (\<lambda>prefixSumResult.
     ebind (querySumSquares ps region) (\<lambda>prefixSumSquaresResult.
       Inr (bruteSum img region = prefixSumResult
            \<and> bruteSumSquares img region = prefixSumSquaresResult)))"

text \<open>
  The sums of the claim's words: the cell values, and their squares, added over the
  cells of a region, with no bounds check.
\<close>

definition cellSum :: "Matrix \<Rightarrow> Region \<Rightarrow> int64" where
  "cellSum img region =
     (\<Sum>r\<leftarrow>[row1 region..row2 region]. \<Sum>c\<leftarrow>[col1 region..col2 region].
        ucast (img ! nat r ! nat c))"

definition cellSumSquares :: "Matrix \<Rightarrow> Region \<Rightarrow> int64" where
  "cellSumSquares img region =
     (\<Sum>r\<leftarrow>[row1 region..row2 region]. \<Sum>c\<leftarrow>[col1 region..col2 region].
        ucast (img ! nat r ! nat c) * ucast (img ! nat r ! nat c))"

text \<open>Notions for the proofs: the sum over the rectangle above and left of a table
  entry, the loop invariant of \<open>build\<close>, and a finished table.\<close>

definition rect_sum :: "(nat \<Rightarrow> nat \<Rightarrow> 'a::ab_group_add) \<Rightarrow> nat \<Rightarrow> nat \<Rightarrow> 'a" where
  "rect_sum f a b = (\<Sum>r<a. \<Sum>c<b. f r c)"

definition tab_inv ::
  "(nat \<Rightarrow> nat \<Rightarrow> 'a::ab_group_add) \<Rightarrow> nat \<Rightarrow> nat \<Rightarrow> 'a list list \<Rightarrow> nat \<Rightarrow> nat \<Rightarrow> bool" where
  "tab_inv f h w p i j \<longleftrightarrow>
     length p = h + 1 \<and> (\<forall>a\<le>h. length (p ! a) = w + 1)
     \<and> (\<forall>a\<le>h. \<forall>b\<le>w. (a < i \<or> (a = i \<and> b < j) \<or> b = 0) \<longrightarrow> p ! a ! b = rect_sum f a b)"

definition pixelValue :: "Matrix \<Rightarrow> nat \<Rightarrow> nat \<Rightarrow> int64" where
  "pixelValue img r c = ucast (img ! r ! c)"

definition pixelSquare :: "Matrix \<Rightarrow> nat \<Rightarrow> nat \<Rightarrow> int64" where
  "pixelSquare img r c = ucast (img ! r ! c) * ucast (img ! r ! c)"

definition table_of :: "(nat \<Rightarrow> nat \<Rightarrow> 'a::ab_group_add) \<Rightarrow> nat \<Rightarrow> nat \<Rightarrow> 'a list list \<Rightarrow> bool" where
  "table_of f h w p \<longleftrightarrow>
     length p = h + 1 \<and> (\<forall>a\<le>h. length (p ! a) = w + 1)
     \<and> (\<forall>a\<le>h. \<forall>b\<le>w. p ! a ! b = rect_sum f a b)"

section \<open>The region tree (RegionTree.h, RegionTree.cpp)\<close>

text \<open>
  A \<open>double\<close> is a value of a type \<open>'f\<close> of which the model uses the order and the
  constant 0 (no NaN is ever stored: every score is 0 or a quotient of finite values by
  a divisor of at least \<open>1e-10\<close>). A node is the struct \<open>RegionTreeNode\<close> without its
  member \<open>stats\<close>, whose double-valued statistics no function modelled here reads.
  The field \<open>id\<close> is called \<open>node_id\<close>, \<open>children\<close> is the array of four child
  indices.
\<close>

record 'f RegionTreeNode =
  node_id :: int
  bounds :: Region
  anomalyScore :: 'f
  isAnomaly :: bool
  depth :: int
  children :: "int list"
  parent :: int

definition RegionTreeNode_new :: "'f::zero RegionTreeNode" where
  "RegionTreeNode_new = \<lparr>node_id = - 1, bounds = mkRegion 0 0 0 0, anomalyScore = 0,
     isAnomaly = False, depth = 0, children = [- 1, - 1, - 1, - 1], parent = - 1\<rparr>"

definition isLeaf :: "'f RegionTreeNode \<Rightarrow> bool" where
  "isLeaf node \<longleftrightarrow> children node ! 0 = - 1 \<and> children node ! 1 = - 1
     \<and> children node ! 2 = - 1 \<and> children node ! 3 = - 1"

text \<open>
  The tree keeps its nodes in a \<open>std::vector\<close>, and \<open>buildRecursive\<close> holds a
  reference to an element while the vector grows. The model of the vector therefore
  carries its capacity and counts its reallocations: \<open>epoch\<close> is the number of
  reallocations so far, and a reference taken at one epoch is valid as long as the
  epoch is the same. \<open>reserve\<close> allocates exactly the capacity asked for, and a full
  vector doubles its capacity, as in libstdc++ and libc++.
\<close>

record 'a vector =
  elems :: "'a list"
  capacity :: nat
  epoch :: nat

definition vector_new :: "'a vector" where
  "vector_new = \<lparr>elems = [], capacity = 0, epoch = 0\<rparr>"

definition clear :: "'a vector \<Rightarrow> 'a vector" where
  "clear v = v\<lparr>elems := []\<rparr>"

definition reserve :: "'a vector \<Rightarrow> nat \<Rightarrow> 'a vector" where
  "reserve v n = (if capacity v < n then v\<lparr>capacity := n, epoch := epoch v + 1\<rparr> else v)"

definition emplace_back :: "'a vector \<Rightarrow> 'a \<Rightarrow> 'a vector" where
  "emplace_back v x =
     (if length (elems v) < capacity v then v\<lparr>elems := elems v @ [x]\<rparr>
      else v\<lparr>elems := elems v @ [x], capacity := max 1 (2 * capacity v), epoch := epoch v + 1\<rparr>)"

record 'f RegionTree =
  nodes :: "'f RegionTreeNode vector"
  rootIndex :: int
  nodeCount :: int
  leafCount :: int
  maxDepth :: int
  minRegionSize :: int

definition RegionTree_new :: "'f RegionTree" where
  "RegionTree_new = \<lparr>nodes = vector_new, rootIndex = - 1, nodeCount = 0, leafCount = 0,
     maxDepth = 0, minRegionSize = 16\<rparr>"

text \<open>
  The statement \<open>node.children[i] = buildRecursive(...)\<close>: \<open>node\<close> is the reference
  \<open>nodes[nodeIdx]\<close> taken at epoch \<open>ref\<close>, and the assignment happens after the call
  has returned. If the vector has reallocated since, the write goes through a dangling
  reference.
\<close>

definition assign_child ::
  "nat \<Rightarrow> nat \<Rightarrow> nat \<Rightarrow> error + int \<times> 'f RegionTree \<Rightarrow> error + 'f RegionTree" where
  "assign_child ref nodeIdx i r =
     (case r of
        Inl e \<Rightarrow> Inl e
      | Inr (childIdx, t) \<Rightarrow>
          if epoch (nodes t) \<noteq> ref then Inl DanglingReference
          else
            (let ns = elems (nodes t); node = ns ! nodeIdx
             in Inr (t\<lparr>nodes := (nodes t)\<lparr>elems :=
                       ns[nodeIdx := node\<lparr>children := (children node)[i := childIdx]\<rparr>]\<rparr>\<rparr>)))"

text \<open>
  \<open>RegionTree::buildRecursive\<close>. The members it updates (\<open>nodes\<close>, \<open>maxDepth\<close>,
  \<open>nodeCount\<close>, \<open>leafCount\<close>) are passed in and returned with the tree. The loop over
  the four quadrants is written out. The recursion need not end (it does not for
  \<open>minRegionSize \<le> 0\<close>), so the result is an option: \<open>None\<close> is a call that never
  returns.
\<close>

partial_function (option) buildRecursive ::
  "Region \<Rightarrow> int \<Rightarrow> int \<Rightarrow> 'f::zero RegionTree \<Rightarrow> (error + int \<times> 'f RegionTree) option"
where
  "buildRecursive region depth' parentIdx t =
     (let nodeIdx = length (elems (nodes t));
          v = emplace_back (nodes t) RegionTreeNode_new;
          ref = epoch v;
          node = RegionTreeNode_new\<lparr>node_id := int nodeIdx, bounds := region, depth := depth',
                   parent := parentIdx, children := [- 1, - 1, - 1, - 1]\<rparr>;
          t1 = t\<lparr>nodes := v\<lparr>elems := (elems v)[nodeIdx := node]\<rparr>,
                 maxDepth := max (maxDepth t) depth', nodeCount := nodeCount t + 1\<rparr>
      in if regionHeight region \<le> minRegionSize t \<or> regionWidth region \<le> minRegionSize t
         then Some (Inr (int nodeIdx, t1\<lparr>leafCount := leafCount t1 + 1\<rparr>))
         else
           (let quadrants = splitRegion region
            in Option.bind
                 (if isValid (quadrants ! 0)
                  then Option.bind
                         (buildRecursive (quadrants ! 0) (depth' + 1) (int nodeIdx) t1)
                         (\<lambda>r. Some (assign_child ref nodeIdx 0 r))
                  else Some (Inr t1)) (\<lambda>s1.
               Option.bind
                 (case s1 of
                  Inl e \<Rightarrow> Some (Inl e)
                | Inr t' \<Rightarrow>
                    if isValid (quadrants ! 1)
                    then Option.bind
                           (buildRecursive (quadrants ! 1) (depth' + 1) (int nodeIdx) t')
                           (\<lambda>r. Some (assign_child ref nodeIdx 1 r))
                    else Some (Inr t')) (\<lambda>s2.
               Option.bind
                 (case s2 of
                  Inl e \<Rightarrow> Some (Inl e)
                | Inr t' \<Rightarrow>
                    if isValid (quadrants ! 2)
                    then Option.bind
                           (buildRecursive (quadrants ! 2) (depth' + 1) (int nodeIdx) t')
                           (\<lambda>r. Some (assign_child ref nodeIdx 2 r))
                    else Some (Inr t')) (\<lambda>s3.
               Option.bind
                 (case s3 of
                  Inl e \<Rightarrow> Some (Inl e)
                | Inr t' \<Rightarrow>
                    if isValid (quadrants ! 3)
                    then Option.bind
                           (buildRecursive (quadrants ! 3) (depth' + 1) (int nodeIdx) t')
                           (\<lambda>r. Some (assign_child ref nodeIdx 3 r))
                    else Some (Inr t')) (\<lambda>s4.
                 Some (case s4 of Inl e \<Rightarrow> Inl e | Inr t4 \<Rightarrow> Inr (int nodeIdx, t4))))))))"

declare buildRecursive.simps [code]

text \<open>
  \<open>RegionTree::build\<close>. The pointer to the index is an option. The division in the
  estimate is an integer division by \<open>minSize\<close>, and \<open>reserve\<close> of a negative number
  (converted to \<open>size_t\<close>) throws.
\<close>

definition RegionTree_build ::
  "PrefixSum option \<Rightarrow> int \<Rightarrow> 'f::zero RegionTree \<Rightarrow> (error + 'f RegionTree) option" where
  "RegionTree_build prefix' minSize t =
     (case prefix' of
        None \<Rightarrow> Some (Inr t)
      | Some ps \<Rightarrow>
          if \<not> built ps then Some (Inr t)
          else if minSize = 0 then Some (Inl DivisionByZero)
          else
            (let estimatedNodes = (cdiv (height ps) minSize + 1) * (cdiv (width ps) minSize + 1) * 2
             in if estimatedNodes < 0 then Some (Inl LengthError)
                else
                  (let t1 = t\<lparr>minRegionSize := minSize, nodes := clear (nodes t), nodeCount := 0,
                              leafCount := 0, maxDepth := 0\<rparr>;
                       t2 = t1\<lparr>nodes := reserve (nodes t1) (nat estimatedNodes)\<rparr>;
                       fullImage = mkRegion 0 0 (height ps - 1) (width ps - 1)
                   in Option.bind (buildRecursive fullImage 0 (- 1) t2) (\<lambda>r.
                        Some (case r of
                                Inl e \<Rightarrow> Inl e
                              | Inr (r0, t3) \<Rightarrow> Inr (t3\<lparr>rootIndex := r0\<rparr>))))))"

text \<open>\<open>RegionTree::getLeaves\<close>, and the leaves' bounds.\<close>

definition getLeaves :: "'f RegionTree \<Rightarrow> 'f RegionTreeNode list" where
  "getLeaves t = filter isLeaf (elems (nodes t))"

section \<open>The anomaly detector (AnomalyDetector.h, AnomalyDetector.cpp)\<close>

text \<open>
  The arithmetic of \<open>double\<close> is not interpreted: the operations that
  \<open>computeScore\<close> and \<open>queryMean\<close> use are the fields of a record that the
  functions take as a parameter, so every statement about them holds for whatever the
  machine's operations compute. Comparisons are those of the order on \<open>'f\<close>.
\<close>

record 'f fp_ops =
  fp_of_int :: "int \<Rightarrow> 'f"
  fp_div :: "'f \<Rightarrow> 'f \<Rightarrow> 'f"
  fp_sub :: "'f \<Rightarrow> 'f \<Rightarrow> 'f"
  fp_abs :: "'f \<Rightarrow> 'f"
  fp_1e_10 :: 'f

text \<open>
  \<open>PrefixSum::queryMean\<close>: the sum is an \<open>int64_t\<close>, read as a signed value when it
  is converted to \<open>double\<close>; the area is that of the region as given, not clamped.
\<close>

definition queryMean :: "'f::zero fp_ops \<Rightarrow> PrefixSum \<Rightarrow> Region \<Rightarrow> error + 'f" where
  "queryMean ops ps region =
     (if \<not> built ps then Inr 0
      else ebind (querySum ps region) (\<lambda>s.
             Inr (if area region > 0
                  then fp_div ops (fp_of_int ops (sint s)) (fp_of_int ops (area region))
                  else 0)))"

text \<open>
  The detector's members: the pointer to the index (an option), the threshold, and the
  two global statistics that \<open>initialize\<close> copies from the index. The statistics of
  the index are doubles and not part of the model of \<open>PrefixSum\<close>, so here they are
  arbitrary values. The record \<open>stats\<close> of counters and the timer are left out.
\<close>

record 'f AnomalyDetector =
  prefixSum :: "PrefixSum option"
  threshold :: 'f
  globalMean :: 'f
  globalStdDev :: 'f

definition computeScore ::
  "'f::{zero,linorder} fp_ops \<Rightarrow> 'f AnomalyDetector \<Rightarrow> Region \<Rightarrow> error + 'f" where
  "computeScore ops det region =
     (case prefixSum det of
        None \<Rightarrow> Inr 0
      | Some ps \<Rightarrow>
          if \<not> built ps then Inr 0
          else if globalStdDev det < fp_1e_10 ops then Inr 0
          else ebind (queryMean ops ps region) (\<lambda>regionMean.
                 let deviation = fp_abs ops (fp_sub ops regionMean (globalMean det))
                 in Inr (fp_div ops deviation (globalStdDev det))))"

definition isAnomalous :: "'f::linorder AnomalyDetector \<Rightarrow> 'f \<Rightarrow> bool" where
  "isAnomalous det score \<longleftrightarrow> score > threshold det"

text \<open>The loop of \<open>detectInTree\<close> over all nodes, which writes the two fields of each.\<close>

fun detect_nodes ::
  "'f::{zero,linorder} fp_ops \<Rightarrow> 'f AnomalyDetector \<Rightarrow> 'f RegionTreeNode list
   \<Rightarrow> error + 'f RegionTreeNode list" where
  "detect_nodes ops det [] = Inr []"
| "detect_nodes ops det (node # rest) =
     ebind (computeScore ops det (bounds node)) (\<lambda>score.
     ebind (detect_nodes ops det rest) (\<lambda>rest'.
       Inr (node\<lparr>anomalyScore := score, isAnomaly := isAnomalous det score\<rparr> # rest')))"

definition detectInTree ::
  "'f::{zero,linorder} fp_ops \<Rightarrow> 'f AnomalyDetector \<Rightarrow> 'f RegionTree \<Rightarrow> error + 'f RegionTree" where
  "detectInTree ops det tree =
     (case prefixSum det of
        None \<Rightarrow> Inr tree
      | Some ps \<Rightarrow>
          if \<not> built ps then Inr tree
          else ebind (detect_nodes ops det (elems (nodes tree))) (\<lambda>ns.
                 Inr (tree\<lparr>nodes := (nodes tree)\<lparr>elems := ns\<rparr>\<rparr>)))"

text \<open>
  The two quantities of the score as the specification words them: the mean of the
  raster over a region (the brute-force sum of \<open>verify\<close> divided by the area, 0 for
  an empty region), and the deviation of a mean from the global mean in units of the
  global standard deviation (0 when that is below \<open>1e-10\<close>).
\<close>

definition regionMean :: "'f::zero fp_ops \<Rightarrow> Matrix \<Rightarrow> Region \<Rightarrow> 'f" where
  "regionMean ops img r =
     (if area r > 0 then fp_div ops (fp_of_int ops (sint (bruteSum img r))) (fp_of_int ops (area r))
      else 0)"

definition deviationScore :: "'f::{zero,linorder} fp_ops \<Rightarrow> 'f AnomalyDetector \<Rightarrow> 'f \<Rightarrow> 'f" where
  "deviationScore ops det m =
     (if globalStdDev det < fp_1e_10 ops then 0
      else fp_div ops (fp_abs ops (fp_sub ops m (globalMean det))) (globalStdDev det))"

section \<open>Top-K queries (QueryEngine.h, QueryEngine.cpp, Utils.h)\<close>

text \<open>
  \<open>AnomalyRegion\<close> with its two comparison operators, as Utils.h defines them: both
  are inverted, \<open>a < b\<close> compares the scores with \<open>>\<close> and \<open>a > b\<close> with \<open><\<close>.
\<close>

record 'f AnomalyRegion =
  region :: Region
  score :: 'f
  nodeId :: int

definition AnomalyRegion_less :: "'f::linorder AnomalyRegion \<Rightarrow> 'f AnomalyRegion \<Rightarrow> bool" where
  "AnomalyRegion_less a other \<longleftrightarrow> score a > score other"

definition AnomalyRegion_greater :: "'f::linorder AnomalyRegion \<Rightarrow> 'f AnomalyRegion \<Rightarrow> bool" where
  "AnomalyRegion_greater a other \<longleftrightarrow> score a < score other"

text \<open>
  \<open>std::priority_queue<T, std::vector<T>, Compare>\<close>: \<open>top()\<close> is an element that
  \<open>Compare\<close> puts before no other element of the queue. The model keeps the elements
  in a list with the top at the head; \<open>push\<close> inserts an element before the first one
  that \<open>Compare\<close> puts before it. Which of several equivalent elements is on top is
  not specified by the standard; here it is the one pushed first. \<open>top()\<close> and
  \<open>pop()\<close> on an empty queue are undefined.
\<close>

fun pq_push :: "('a \<Rightarrow> 'a \<Rightarrow> bool) \<Rightarrow> 'a \<Rightarrow> 'a list \<Rightarrow> 'a list" where
  "pq_push cmp x [] = [x]"
| "pq_push cmp x (y # ys) = (if cmp y x then x # y # ys else y # pq_push cmp x ys)"

definition pq_top :: "'a list \<Rightarrow> error + 'a" where
  "pq_top q = (case q of [] \<Rightarrow> Inl EmptyQueue | x # _ \<Rightarrow> Inr x)"

definition pq_pop :: "'a list \<Rightarrow> error + 'a list" where
  "pq_pop q = (case q of [] \<Rightarrow> Inl EmptyQueue | _ # xs \<Rightarrow> Inr xs)"

text \<open>
  The queue of both top-K functions is declared with \<open>std::greater<AnomalyRegion>\<close>,
  which calls \<open>operator>\<close> of \<open>AnomalyRegion\<close>.
\<close>

definition std_greater :: "'f::linorder AnomalyRegion \<Rightarrow> 'f AnomalyRegion \<Rightarrow> bool" where
  "std_greater a b \<longleftrightarrow> AnomalyRegion_greater a b"

record 'f QueryResult =
  regions :: "'f AnomalyRegion list"
  nodesVisited :: int
  nodesPruned :: int

definition QueryResult_new :: "'f QueryResult" where
  "QueryResult_new = \<lparr>regions = [], nodesVisited = 0, nodesPruned = 0\<rparr>"

definition mkAnomalyRegion :: "'f RegionTreeNode \<Rightarrow> 'f AnomalyRegion" where
  "mkAnomalyRegion node = \<lparr>region = bounds node, score = anomalyScore node, nodeId = node_id node\<rparr>"

text \<open>
  The body shared by the two functions: \<open>if (size < k) push; else if (score >
  top().score) { pop; push; }\<close>.
\<close>

definition offer :: "int \<Rightarrow> 'f::linorder AnomalyRegion \<Rightarrow> 'f AnomalyRegion list
    \<Rightarrow> error + 'f AnomalyRegion list" where
  "offer k ar minHeap =
     (if int (length minHeap) < k then Inr (pq_push std_greater ar minHeap)
      else ebind (pq_top minHeap) (\<lambda>topEl.
             if score ar > score topEl
             then ebind (pq_pop minHeap) (\<lambda>popped. Inr (pq_push std_greater ar popped))
             else Inr minHeap))"

text \<open>The loop of \<open>topKAnomalies\<close> over all nodes, in the order of the vector.\<close>

fun topK_loop :: "int \<Rightarrow> bool \<Rightarrow> 'f::linorder RegionTreeNode list
    \<Rightarrow> 'f AnomalyRegion list \<times> int \<Rightarrow> error + 'f AnomalyRegion list \<times> int" where
  "topK_loop k leafOnly [] st = Inr st"
| "topK_loop k leafOnly (node # rest) (minHeap, visited) =
     (if leafOnly \<and> \<not> isLeaf node then topK_loop k leafOnly rest (minHeap, visited)
      else ebind (offer k (mkAnomalyRegion node) minHeap) (\<lambda>minHeap'.
             topK_loop k leafOnly rest (minHeap', visited + 1)))"

text \<open>
  The extraction loop \<open>while (!minHeap.empty()) { push_back(top()); pop(); }\<close>
  copies the queue from its top on, and the result is reversed.
\<close>

fun drain :: "'a list \<Rightarrow> 'a list" where
  "drain [] = []"
| "drain (x # xs) = x # drain xs"

definition topKAnomalies ::
  "'f::linorder RegionTree option \<Rightarrow> int \<Rightarrow> bool \<Rightarrow> error + 'f QueryResult" where
  "topKAnomalies regionTree k leafOnly =
     (case regionTree of
        None \<Rightarrow> Inr QueryResult_new
      | Some tree \<Rightarrow>
          ebind (topK_loop k leafOnly (elems (nodes tree)) ([], 0)) (\<lambda>(minHeap, visited).
            Inr \<lparr>regions = rev (drain minHeap), nodesVisited = visited, nodesPruned = 0\<rparr>))"

text \<open>
  The breadth-first loop of \<open>topKWithPruning\<close>. \<open>toVisit\<close> is the queue of indices,
  the state the heap and the two counters. On a vector whose child indices form a
  cycle the loop does not end, so the result is an option.
\<close>

partial_function (option) pruning_loop ::
  "int \<Rightarrow> 'f::linorder RegionTreeNode list \<Rightarrow> int list
   \<Rightarrow> 'f AnomalyRegion list \<times> int \<times> int \<Rightarrow> (error + 'f AnomalyRegion list \<times> int \<times> int) option"
where
  "pruning_loop k ns toVisit st =
     (case toVisit of
        [] \<Rightarrow> Some (Inr st)
      | idx # rest \<Rightarrow>
          if idx < 0 \<or> idx \<ge> int (length ns) then pruning_loop k ns rest st
          else
            (let node = ns ! nat idx;
                 (minHeap, visited, pruned) = st;
                 visited = visited + 1
             in case (if int (length minHeap) \<ge> k
                      then ebind (pq_top minHeap) (\<lambda>topEl. Inr (anomalyScore node < score topEl))
                      else Inr False) of
                  Inl e \<Rightarrow> Some (Inl e)
                | Inr canPrune \<Rightarrow>
                    if canPrune \<and> \<not> isLeaf node
                    then pruning_loop k ns rest (minHeap, visited, pruned + 1)
                    else if isLeaf node
                    then (case offer k (mkAnomalyRegion node) minHeap of
                            Inl e \<Rightarrow> Some (Inl e)
                          | Inr minHeap' \<Rightarrow> pruning_loop k ns rest (minHeap', visited, pruned))
                    else pruning_loop k ns (rest @ filter (\<lambda>c. c \<ge> 0) (children node))
                           (minHeap, visited, pruned)))"

declare pruning_loop.simps [code]

definition topKWithPruning ::
  "'f::linorder RegionTree option \<Rightarrow> int \<Rightarrow> (error + 'f QueryResult) option" where
  "topKWithPruning regionTree k =
     (case regionTree of
        None \<Rightarrow> Some (Inr QueryResult_new)
      | Some tree \<Rightarrow>
          Option.bind (pruning_loop k (elems (nodes tree)) [0] ([], 0, 0)) (\<lambda>r.
            Some (ebind r (\<lambda>(minHeap, visited, pruned).
              Inr \<lparr>regions = rev (drain minHeap), nodesVisited = visited,
                   nodesPruned = pruned\<rparr>))))"

text \<open>
  Notions for the proofs. In a vector that \<open>buildRecursive\<close> has filled every node
  has four child slots and a child stands after its parent; on such a vector the
  breadth-first loop ends. \<open>weight\<close> is the measure that shows it.
\<close>

definition forward_children :: "'f RegionTreeNode list \<Rightarrow> bool" where
  "forward_children ns \<longleftrightarrow>
     (\<forall>i < length ns. length (children (ns ! i)) = 4
        \<and> (\<forall>c \<in> set (children (ns ! i)). c \<ge> 0 \<longrightarrow> c > int i))"

definition weight :: "nat \<Rightarrow> int \<Rightarrow> nat" where
  "weight n idx = (if 0 \<le> idx \<and> idx < int n then 5 ^ (n - nat idx) else 1)"

section \<open>Example inputs\<close>

text \<open>
  The operations of \<open>double\<close> read as those of the real numbers, for the concrete
  instances below.
\<close>

definition real_ops :: "real fp_ops" where
  "real_ops = \<lparr>fp_of_int = real_of_int, fp_div = (/), fp_sub = (-), fp_abs = abs,
     fp_1e_10 = 1 / 10 ^ 10\<rparr>"

definition two_nodes :: "real RegionTree" where
  "two_nodes = RegionTree_new\<lparr>nodes := vector_new\<lparr>elems :=
     [RegionTreeNode_new\<lparr>node_id := 0, bounds := mkRegion 0 0 1 2\<rparr>,
      RegionTreeNode_new\<lparr>node_id := 1, bounds := mkRegion 1 2 1 2\<rparr>]\<rparr>\<rparr>"

text \<open>
  The tree of a 33 x 33 raster with \<open>minRegionSize = 16\<close>: the root, its NW quadrant
  of 17 x 17 pixels split once more into four leaves, and the three other quadrants,
  which are leaves. The scores are chosen so that every inner node's score bounds the
  scores of the leaves below it.
\<close>

definition mkNode :: "int \<Rightarrow> Region \<Rightarrow> 'f \<Rightarrow> bool \<Rightarrow> int \<Rightarrow> int list \<Rightarrow> int \<Rightarrow> 'f RegionTreeNode" where
  "mkNode i b s a d cs p = \<lparr>node_id = i, bounds = b, anomalyScore = s, isAnomaly = a, depth = d,
     children = cs, parent = p\<rparr>"

definition example_nodes :: "real RegionTreeNode list" where
  "example_nodes =
     [mkNode 0 (mkRegion 0 0 32 32) 7 True 0 [1, 6, 7, 8] (- 1),
      mkNode 1 (mkRegion 0 0 16 16) 4 True 1 [2, 3, 4, 5] 0,
      mkNode 2 (mkRegion 0 0 8 8) 1 False 2 [- 1, - 1, - 1, - 1] 1,
      mkNode 3 (mkRegion 0 9 8 16) 2 False 2 [- 1, - 1, - 1, - 1] 1,
      mkNode 4 (mkRegion 9 0 16 8) 3 True 2 [- 1, - 1, - 1, - 1] 1,
      mkNode 5 (mkRegion 9 9 16 16) 4 True 2 [- 1, - 1, - 1, - 1] 1,
      mkNode 6 (mkRegion 0 17 16 32) 5 True 1 [- 1, - 1, - 1, - 1] 0,
      mkNode 7 (mkRegion 17 0 32 16) 6 True 1 [- 1, - 1, - 1, - 1] 0,
      mkNode 8 (mkRegion 17 17 32 32) 7 True 1 [- 1, - 1, - 1, - 1] 0]"

definition example_tree :: "real RegionTree" where
  "example_tree = \<lparr>nodes = \<lparr>elems = example_nodes, capacity = 18, epoch = 1\<rparr>, rootIndex = 0,
     nodeCount = 9, leafCount = 7, maxDepth = 2, minRegionSize = 16\<rparr>"

definition example_index :: "nat \<Rightarrow> PrefixSum" where
  "example_index n = PrefixSum_new\<lparr>height := int n, width := int n, built := True\<rparr>"

definition unscored :: "'f::zero RegionTree \<Rightarrow> 'f RegionTree" where
  "unscored t = t\<lparr>nodes := (nodes t)\<lparr>elems :=
     map (\<lambda>n. n\<lparr>anomalyScore := 0, isAnomaly := False\<rparr>) (elems (nodes t))\<rparr>\<rparr>"

section \<open>Properties of regions\<close>

lemma cdiv_even: "cdiv (2 * k) 2 = k"
  by (cases "k < 0") (simp_all add: cdiv_def sgn_if abs_if)

lemma cdiv_nonneg: "0 \<le> a \<Longrightarrow> cdiv a 2 = a div 2"
  by (simp add: cdiv_def sgn_if)

text \<open>
  C8 (as stated, for all regions): \<open>isAdjacentTo(A, A)\<close> is claimed false for every
  region. The struct admits inverted bounds, and the region with \<open>col1 = 1\<close>,
  \<open>col2 = 0\<close> on the single row 0 is adjacent to itself: its columns do not overlap
  themselves, its rows do, and \<open>col2 + 1 = col1\<close>.
\<close>

theorem isAdjacentTo_self_inverted:
  "isAdjacentTo (mkRegion 0 1 0 0) (mkRegion 0 1 0 0)"
  by (simp add: isAdjacentTo_def mkRegion_def)

text \<open>
  C8 (amended): \<open>isAdjacentTo\<close> is symmetric for all regions; a valid region
  (\<open>row1 \<le> row2\<close> and \<open>col1 \<le> col2\<close>) is never adjacent to itself; and two regions
  that share a cell are never adjacent.
\<close>

theorem isAdjacentTo_symmetric_irreflexive:
  "isAdjacentTo A B = isAdjacentTo B A
   \<and> (isValid A \<longrightarrow> \<not> isAdjacentTo A A)
   \<and> (contains A r c \<and> contains B r c \<longrightarrow> \<not> isAdjacentTo A B)"
proof (intro conjI impI)
  show "isAdjacentTo A B = isAdjacentTo B A"
    unfolding isAdjacentTo_def Let_def by auto
next
  assume "isValid A"
  then show "\<not> isAdjacentTo A A"
    by (simp add: isAdjacentTo_def isValid_def)
next
  assume "contains A r c \<and> contains B r c"
  then have "\<not> (col2 A < col1 B \<or> col2 B < col1 A)" "\<not> (row2 A < row1 B \<or> row2 B < row1 A)"
    by (auto simp: contains_def)
  then show "\<not> isAdjacentTo A B"
    by (simp add: isAdjacentTo_def)
qed

theorem isAdjacentTo_symmetric_irreflexive_witness:
  "isValid (mkRegion 0 0 1 1) \<and> \<not> isAdjacentTo (mkRegion 0 0 1 1) (mkRegion 0 0 1 1)
   \<and> contains (mkRegion 0 0 1 1) 1 1 \<and> contains (mkRegion 1 1 2 2) 1 1
   \<and> \<not> isAdjacentTo (mkRegion 0 0 1 1) (mkRegion 1 1 2 2)
   \<and> isAdjacentTo (mkRegion 0 0 1 1) (mkRegion 0 2 1 3)
   \<and> isAdjacentTo (mkRegion 0 2 1 3) (mkRegion 0 0 1 1)"
proof -
  have v: "isValid (mkRegion 0 0 1 1)"
    by (simp add: isValid_def mkRegion_def)
  have c: "contains (mkRegion 0 0 1 1) 1 1 \<and> contains (mkRegion 1 1 2 2) 1 1"
    by (simp add: contains_def mkRegion_def)
  have a: "isAdjacentTo (mkRegion 0 0 1 1) (mkRegion 0 2 1 3)"
    by (simp add: isAdjacentTo_def mkRegion_def)
  from isAdjacentTo_symmetric_irreflexive [of "mkRegion 0 0 1 1" "mkRegion 0 0 1 1" 1 1] v
  have 1: "\<not> isAdjacentTo (mkRegion 0 0 1 1) (mkRegion 0 0 1 1)" by blast
  from isAdjacentTo_symmetric_irreflexive [of "mkRegion 0 0 1 1" "mkRegion 1 1 2 2" 1 1] c
  have 2: "\<not> isAdjacentTo (mkRegion 0 0 1 1) (mkRegion 1 1 2 2)" by blast
  from isAdjacentTo_symmetric_irreflexive [of "mkRegion 0 0 1 1" "mkRegion 0 2 1 3" 1 1] a
  have 3: "isAdjacentTo (mkRegion 0 2 1 3) (mkRegion 0 0 1 1)" by blast
  from v c a 1 2 3 show ?thesis by blast
qed

text \<open>
  C7 (as stated): for an odd dimension the NW/SW quadrants are claimed to receive the
  smaller half. On the 3 x 3 region with corners (0,0) and (2,2) the split column is 1,
  the NW and SW quadrants are 2 columns wide and the NE and SE quadrants 1 column wide.
\<close>

theorem splitRegion_west_not_smaller:
  "regionWidth (splitRegion (mkRegion 0 0 2 2) ! 0) = 2
   \<and> regionWidth (splitRegion (mkRegion 0 0 2 2) ! 2) = 2
   \<and> regionWidth (splitRegion (mkRegion 0 0 2 2) ! 1) = 1
   \<and> regionWidth (splitRegion (mkRegion 0 0 2 2) ! 3) = 1
   \<and> \<not> regionWidth (splitRegion (mkRegion 0 0 2 2) ! 0)
        \<le> regionWidth (splitRegion (mkRegion 0 0 2 2) ! 1)"
  by (simp add: splitRegion_def mkRegion_def regionWidth_def cdiv_def)

text \<open>
  C7 (amended): for a region whose width is odd, \<open>2 * k + 1\<close>, the split column is the
  midpoint \<open>col1 + k\<close> itself (so also its floor), the NW and SW quadrants hold the
  columns up to and including it, \<open>k + 1\<close> of them, and the NE and SE quadrants the
  remaining \<open>k\<close>. The same holds for an odd height \<open>2 * m + 1\<close>: the NW and NE
  quadrants receive \<open>m + 1\<close> rows, the SW and SE quadrants \<open>m\<close>.
\<close>

theorem splitRegion_odd_dimension:
  "(regionWidth R = 2 * k + 1 \<longrightarrow>
      col2 (splitRegion R ! 0) = col1 R + k
      \<and> col2 (splitRegion R ! 0) = (col1 R + col2 R) div 2
      \<and> regionWidth (splitRegion R ! 0) = k + 1 \<and> regionWidth (splitRegion R ! 2) = k + 1
      \<and> regionWidth (splitRegion R ! 1) = k \<and> regionWidth (splitRegion R ! 3) = k)
   \<and> (regionHeight R = 2 * m + 1 \<longrightarrow>
      row2 (splitRegion R ! 0) = row1 R + m
      \<and> row2 (splitRegion R ! 0) = (row1 R + row2 R) div 2
      \<and> regionHeight (splitRegion R ! 0) = m + 1 \<and> regionHeight (splitRegion R ! 1) = m + 1
      \<and> regionHeight (splitRegion R ! 2) = m \<and> regionHeight (splitRegion R ! 3) = m)"
proof (intro conjI impI)
  assume w: "regionWidth R = 2 * k + 1"
  then have s: "col1 R + col2 R = 2 * (col1 R + k)"
    by (simp add: regionWidth_def)
  have mid: "cdiv (col1 R + col2 R) 2 = col1 R + k"
    unfolding s by (rule cdiv_even)
  show "col2 (splitRegion R ! 0) = col1 R + k"
    by (simp add: splitRegion_def Let_def mkRegion_def mid)
  have fl: "(col1 R + col2 R) div 2 = col1 R + k"
    unfolding s by simp
  show "col2 (splitRegion R ! 0) = (col1 R + col2 R) div 2"
    by (simp add: splitRegion_def Let_def mkRegion_def mid fl)
  show "regionWidth (splitRegion R ! 0) = k + 1"
    by (simp add: splitRegion_def Let_def mkRegion_def mid regionWidth_def)
  show "regionWidth (splitRegion R ! 2) = k + 1"
    by (simp add: splitRegion_def Let_def mkRegion_def mid regionWidth_def)
  show "regionWidth (splitRegion R ! 1) = k"
    using w by (simp add: splitRegion_def Let_def mkRegion_def mid regionWidth_def)
  show "regionWidth (splitRegion R ! 3) = k"
    using w by (simp add: splitRegion_def Let_def mkRegion_def mid regionWidth_def)
next
  assume h: "regionHeight R = 2 * m + 1"
  then have s: "row1 R + row2 R = 2 * (row1 R + m)"
    by (simp add: regionHeight_def)
  have mid: "cdiv (row1 R + row2 R) 2 = row1 R + m"
    unfolding s by (rule cdiv_even)
  show "row2 (splitRegion R ! 0) = row1 R + m"
    by (simp add: splitRegion_def Let_def mkRegion_def mid)
  have fl: "(row1 R + row2 R) div 2 = row1 R + m"
    unfolding s by simp
  show "row2 (splitRegion R ! 0) = (row1 R + row2 R) div 2"
    by (simp add: splitRegion_def Let_def mkRegion_def mid fl)
  show "regionHeight (splitRegion R ! 0) = m + 1"
    by (simp add: splitRegion_def Let_def mkRegion_def mid regionHeight_def)
  show "regionHeight (splitRegion R ! 1) = m + 1"
    by (simp add: splitRegion_def Let_def mkRegion_def mid regionHeight_def)
  show "regionHeight (splitRegion R ! 2) = m"
    using h by (simp add: splitRegion_def Let_def mkRegion_def mid regionHeight_def)
  show "regionHeight (splitRegion R ! 3) = m"
    using h by (simp add: splitRegion_def Let_def mkRegion_def mid regionHeight_def)
qed

theorem splitRegion_odd_dimension_witness:
  "regionWidth (mkRegion 0 0 4 6) = 2 * 3 + 1 \<and> regionHeight (mkRegion 0 0 4 6) = 2 * 2 + 1
   \<and> col2 (splitRegion (mkRegion 0 0 4 6) ! 0) = 3
   \<and> regionWidth (splitRegion (mkRegion 0 0 4 6) ! 0) = 4
   \<and> regionWidth (splitRegion (mkRegion 0 0 4 6) ! 1) = 3
   \<and> row2 (splitRegion (mkRegion 0 0 4 6) ! 0) = 2
   \<and> regionHeight (splitRegion (mkRegion 0 0 4 6) ! 0) = 3
   \<and> regionHeight (splitRegion (mkRegion 0 0 4 6) ! 2) = 2"
proof -
  have w: "regionWidth (mkRegion 0 0 4 6) = 2 * 3 + 1"
    by (simp add: regionWidth_def mkRegion_def)
  have h: "regionHeight (mkRegion 0 0 4 6) = 2 * 2 + 1"
    by (simp add: regionHeight_def mkRegion_def)
  from splitRegion_odd_dimension [of "mkRegion 0 0 4 6" 3 2] w h
  show ?thesis by (simp add: mkRegion_def)
qed

section \<open>Properties of the prefix sums\<close>

lemma rect_sum_0 [simp]: "rect_sum f 0 b = 0" "rect_sum f a 0 = 0"
  by (simp_all add: rect_sum_def)

lemma rect_sum_step:
  "rect_sum f (Suc a) (Suc b) = f a b + rect_sum f a (Suc b) + rect_sum f (Suc a) b - rect_sum f a b"
  by (simp add: rect_sum_def algebra_simps)

lemma tab_inv_zeros: "tab_inv f h w (replicate (h + 1) (replicate (w + 1) 0)) 1 1"
  unfolding tab_inv_def
proof (intro conjI allI impI)
  show "length (replicate (h + 1) (replicate (w + 1) (0::'a))) = h + 1"
    by simp
next
  fix a assume "a \<le> h"
  then have "a < h + 1" by simp
  then have "replicate (h + 1) (replicate (w + 1) (0::'a)) ! a = replicate (w + 1) 0"
    by (rule nth_replicate)
  then show "length (replicate (h + 1) (replicate (w + 1) (0::'a)) ! a) = w + 1"
    by simp
next
  fix a b assume "a \<le> h" and "b \<le> w" and cov: "a < 1 \<or> (a = 1 \<and> b < 1) \<or> b = 0"
  then have "a < h + 1" and "b < w + 1" by simp_all
  then have "replicate (h + 1) (replicate (w + 1) (0::'a)) ! a ! b = 0"
    by (simp only: nth_replicate)
  moreover have "rect_sum f a b = 0"
    using cov by auto
  ultimately show "replicate (h + 1) (replicate (w + 1) (0::'a)) ! a ! b = rect_sum f a b"
    by simp
qed

lemma tab_inv_set2:
  assumes inv: "tab_inv f h w p i j" and i: "1 \<le> i" "i \<le> h" and j: "1 \<le> j" "j \<le> w"
  shows "tab_inv f h w
           (set2 p i j (f (i - 1) (j - 1) + p ! (i - 1) ! j + p ! i ! (j - 1) - p ! (i - 1) ! (j - 1)))
           i (j + 1)"
proof -
  obtain a b where ab: "i = Suc a" "j = Suc b"
    using i j by (cases i; cases j) auto
  have len: "length p = h + 1" and rows: "\<And>r. r \<le> h \<Longrightarrow> length (p ! r) = w + 1"
    using inv by (auto simp: tab_inv_def)
  have old: "\<And>r c. r \<le> h \<Longrightarrow> c \<le> w \<Longrightarrow> r < i \<or> (r = i \<and> c < j) \<or> c = 0
               \<Longrightarrow> p ! r ! c = rect_sum f r c"
    using inv unfolding tab_inv_def by blast
  have v1: "p ! (i - 1) ! j = rect_sum f a (Suc b)"
    using old [of a "Suc b"] i j ab by simp
  have v2: "p ! i ! (j - 1) = rect_sum f (Suc a) b"
    using old [of "Suc a" b] i j ab by simp
  have v3: "p ! (i - 1) ! (j - 1) = rect_sum f a b"
    using old [of a b] i j ab by simp
  have new: "f (i - 1) (j - 1) + p ! (i - 1) ! j + p ! i ! (j - 1) - p ! (i - 1) ! (j - 1)
             = rect_sum f i j"
    unfolding v1 v2 v3 using ab by (simp add: rect_sum_step)
  show ?thesis
    unfolding tab_inv_def new set2_def
  proof (intro conjI allI impI)
    show "length (p[i := (p ! i)[j := rect_sum f i j]]) = h + 1"
      using len by simp
  next
    fix r assume "r \<le> h"
    then show "length (p[i := (p ! i)[j := rect_sum f i j]] ! r) = w + 1"
      using rows [of r] len by (cases "r = i") simp_all
  next
    fix r c assume r: "r \<le> h" and c: "c \<le> w"
      and cov: "r < i \<or> (r = i \<and> c < j + 1) \<or> c = 0"
    show "p[i := (p ! i)[j := rect_sum f i j]] ! r ! c = rect_sum f r c"
    proof (cases "r = i \<and> c = j")
      case True
      then show ?thesis using len rows [of i] i j by simp
    next
      case False
      then have "r < i \<or> (r = i \<and> c < j) \<or> c = 0"
        using cov by auto
      then have "p ! r ! c = rect_sum f r c"
        using old r c by blast
      moreover have "p[i := (p ! i)[j := rect_sum f i j]] ! r ! c = p ! r ! c"
        using False len r by (cases "r = i") simp_all
      ultimately show ?thesis by simp
    qed
  qed
qed

lemma tab_inv_next_row:
  assumes "tab_inv f h w p i (w + 1)"
  shows "tab_inv f h w p (i + 1) 1"
  unfolding tab_inv_def
proof (intro conjI allI impI)
  show "length p = h + 1"
    using assms by (simp add: tab_inv_def)
next
  fix a assume "a \<le> h"
  with assms show "length (p ! a) = w + 1"
    by (simp add: tab_inv_def)
next
  fix a b assume "a \<le> h" and "b \<le> w" and "a < i + 1 \<or> (a = i + 1 \<and> b < 1) \<or> b = 0"
  then have "a < i \<or> (a = i \<and> b < w + 1) \<or> b = 0" by auto
  with assms \<open>a \<le> h\<close> \<open>b \<le> w\<close> show "p ! a ! b = rect_sum f a b"
    unfolding tab_inv_def by blast
qed

lemma vec_at2_Inr:
  "vec_at2 m i j = Inr x \<Longrightarrow> 0 \<le> i \<and> 0 \<le> j \<and> x = m ! nat i ! nat j"
  by (auto simp: vec_at2_def vec_at_def ebind_def split: if_splits sum.splits)

lemma vec_at2_in_range:
  "0 \<le> i \<Longrightarrow> nat i < length m \<Longrightarrow> 0 \<le> j \<Longrightarrow> nat j < length (m ! nat i)
   \<Longrightarrow> vec_at2 m i j = Inr (m ! nat i ! nat j)"
  by (auto simp: vec_at2_def vec_at_def ebind_def nat_less_iff)

lemma build_cols_stop: "\<not> j \<le> w \<Longrightarrow> build_cols img w i j (p, q) = Inr (p, q)"
  by (subst build_cols.simps) simp

lemma build_cols_err:
  "j \<le> w \<Longrightarrow> vec_at2 img (int i - 1) (int j - 1) = Inl e \<Longrightarrow> build_cols img w i j (p, q) = Inl e"
  by (subst build_cols.simps) simp

lemma build_cols_step:
  "j \<le> w \<Longrightarrow> vec_at2 img (int i - 1) (int j - 1) = Inr px \<Longrightarrow>
   build_cols img w i j (p, q) =
   build_cols img w i (j + 1)
     (set2 p i j (ucast px + p ! (i - 1) ! j + p ! i ! (j - 1) - p ! (i - 1) ! (j - 1)),
      set2 q i j (ucast px * ucast px + q ! (i - 1) ! j + q ! i ! (j - 1)
                  - q ! (i - 1) ! (j - 1)))"
  by (subst build_cols.simps) (simp add: Let_def)

lemma build_rows_stop: "\<not> i \<le> h \<Longrightarrow> build_rows img h w i pq = Inr pq"
  by (subst build_rows.simps) simp

lemma build_rows_step:
  "i \<le> h \<Longrightarrow> build_cols img w i 1 pq = Inr pq' \<Longrightarrow>
   build_rows img h w i pq = build_rows img h w (i + 1) pq'"
  by (subst build_rows.simps) simp

lemma build_rows_err:
  "i \<le> h \<Longrightarrow> build_cols img w i 1 pq = Inl e \<Longrightarrow> build_rows img h w i pq = Inl e"
  by (subst build_rows.simps) simp

lemma build_cols_inv:
  assumes "build_cols img w i j (p, q) = Inr (p', q')"
    and "tab_inv (pixelValue img) h w p i j" and "tab_inv (pixelSquare img) h w q i j"
    and "1 \<le> i" and "i \<le> h" and "1 \<le> j" and "j \<le> w + 1"
  shows "tab_inv (pixelValue img) h w p' i (w + 1)
         \<and> tab_inv (pixelSquare img) h w q' i (w + 1)"
  using assms
proof (induction img w i j "(p, q)" arbitrary: p q rule: build_cols.induct)
  case (1 img w i j p q)
  show ?case
  proof (cases "j \<le> w")
    case False
    with "1.prems"(7) have "j = w + 1" by simp
    with "1.prems" False show ?thesis by (simp add: build_cols_stop)
  next
    case True
    from "1.prems"(1) True obtain px where px: "vec_at2 img (int i - 1) (int j - 1) = Inr px"
      by (cases "vec_at2 img (int i - 1) (int j - 1)") (simp_all add: build_cols_err)
    from vec_at2_Inr [OF px] "1.prems"(4,6) have pxv: "px = img ! (i - 1) ! (j - 1)"
      by (simp add: nat_diff_distrib')
    define p1 where "p1 = set2 p i j (pixelValue img (i - 1) (j - 1) + p ! (i - 1) ! j
                           + p ! i ! (j - 1) - p ! (i - 1) ! (j - 1))"
    define q1 where "q1 = set2 q i j (pixelSquare img (i - 1) (j - 1) + q ! (i - 1) ! j
                           + q ! i ! (j - 1) - q ! (i - 1) ! (j - 1))"
    have rec: "build_cols img w i (j + 1) (p1, q1) = Inr (p', q')"
      using "1.prems"(1) unfolding build_cols_step [OF True px]
      by (simp add: p1_def q1_def pixelValue_def pixelSquare_def pxv)
    have ip: "tab_inv (pixelValue img) h w p1 i (j + 1)"
      unfolding p1_def using "1.prems" True by (intro tab_inv_set2) simp_all
    have iq: "tab_inv (pixelSquare img) h w q1 i (j + 1)"
      unfolding q1_def using "1.prems" True by (intro tab_inv_set2) simp_all
    show ?thesis
      using "1.hyps" [OF True px refl] rec ip iq "1.prems"(4,5) True
      by (simp add: p1_def q1_def pixelValue_def pixelSquare_def pxv)
  qed
qed

lemma build_rows_inv:
  assumes "build_rows img h w i (p, q) = Inr (p', q')"
    and "tab_inv (pixelValue img) h w p i 1" and "tab_inv (pixelSquare img) h w q i 1"
    and "1 \<le> i" and "i \<le> h + 1"
  shows "tab_inv (pixelValue img) h w p' (h + 1) 1
         \<and> tab_inv (pixelSquare img) h w q' (h + 1) 1"
  using assms
proof (induction img h w i "(p, q)" arbitrary: p q rule: build_rows.induct)
  case (1 img h w i p q)
  show ?case
  proof (cases "i \<le> h")
    case False
    with "1.prems"(5) have "i = h + 1" by simp
    with "1.prems" False show ?thesis by (simp add: build_rows_stop)
  next
    case True
    from "1.prems"(1) True obtain p1 q1 where
      cols: "build_cols img w i 1 (p, q) = Inr (p1, q1)"
      by (cases "build_cols img w i 1 (p, q)") (auto simp: build_rows_err)
    from build_cols_inv [OF cols "1.prems"(2,3,4) True] have
      c1: "tab_inv (pixelValue img) h w p1 i (w + 1)"
      and c2: "tab_inv (pixelSquare img) h w q1 i (w + 1)"
      by simp_all
    note n = tab_inv_next_row [OF c1] tab_inv_next_row [OF c2]
    have rec: "build_rows img h w (i + 1) (p1, q1) = Inr (p', q')"
      using "1.prems"(1) unfolding build_rows_step [OF True cols] .
    show ?thesis
      using "1.hyps" [OF True cols rec n] True by simp
  qed
qed


lemma tab_inv_done: "tab_inv f h w p (h + 1) 1 \<Longrightarrow> table_of f h w p"
  unfolding tab_inv_def table_of_def by auto

lemma build_Inr:
  assumes "build ps0 img = Inr ps" and "img \<noteq> []" and "img ! 0 \<noteq> []"
  shows "built ps \<and> height ps = int (length img) \<and> width ps = int (length (img ! 0))
         \<and> table_of (pixelValue img) (length img) (length (img ! 0)) (prefix ps)
         \<and> table_of (pixelSquare img) (length img) (length (img ! 0)) (prefixSquares ps)"
proof -
  let ?h = "length img" and ?w = "length (img ! 0)"
  let ?z = "replicate (?h + 1) (replicate (?w + 1) (0::int64))"
  have unf: "build ps0 img =
      (case build_rows img ?h ?w 1 (?z, ?z) of
         Inl e \<Rightarrow> Inl e
       | Inr (p, q) \<Rightarrow>
           Inr \<lparr>height = int ?h, width = int ?w, built = True, prefix = p,
                prefixSquares = q, totalSum = p ! ?h ! ?w,
                totalPixels = word_of_nat ?h * word_of_nat ?w\<rparr>)"
    using assms(2,3) unfolding build_def Let_def by (simp only: if_False simp_thms)
  obtain p q where rows: "build_rows img ?h ?w 1 (?z, ?z) = Inr (p, q)"
    using assms(1) unfolding unf
    by (cases "build_rows img ?h ?w 1 (?z, ?z)") auto
  have ps: "ps = \<lparr>height = int ?h, width = int ?w, built = True, prefix = p,
                  prefixSquares = q, totalSum = p ! ?h ! ?w,
                  totalPixels = word_of_nat ?h * word_of_nat ?w\<rparr>"
    using assms(1) unfolding unf rows by simp
  from build_rows_inv [OF rows tab_inv_zeros tab_inv_zeros] have
    "tab_inv (pixelValue img) ?h ?w p (?h + 1) 1" "tab_inv (pixelSquare img) ?h ?w q (?h + 1) 1"
    by simp_all
  then show ?thesis
    by (simp add: ps tab_inv_done)
qed

lemma build_cols_total:
  assumes "1 \<le> i" and "i \<le> length img" and "w \<le> length (img ! (i - 1))" and "1 \<le> j"
  shows "\<exists>r. build_cols img w i j pq = Inr r"
  using assms
proof (induction img w i j pq rule: build_cols.induct)
  case (1 img w i j p q)
  show ?case
  proof (cases "j \<le> w")
    case False
    then show ?thesis by (simp add: build_cols_stop)
  next
    case True
    have px: "vec_at2 img (int i - 1) (int j - 1) = Inr (img ! (i - 1) ! (j - 1))"
      using vec_at2_in_range [of "int i - 1" img "int j - 1"] "1.prems" True
      by (simp add: nat_diff_distrib')
    show ?thesis
      unfolding build_cols_step [OF True px]
      using "1.IH" [OF True px refl] "1.prems" by simp
  qed
qed

lemma build_rows_total:
  assumes "1 \<le> i" and "h \<le> length img" and "\<forall>r<h. w \<le> length (img ! r)"
  shows "\<exists>r. build_rows img h w i pq = Inr r"
  using assms
proof (induction img h w i pq rule: build_rows.induct)
  case (1 img h w i pq)
  show ?case
  proof (cases "i \<le> h")
    case False
    then show ?thesis by (simp add: build_rows_stop)
  next
    case True
    have "w \<le> length (img ! (i - 1))"
      using "1.prems" True by simp
    with build_cols_total [of i img w 1 pq] "1.prems" True obtain pq'
      where cols: "build_cols img w i 1 pq = Inr pq'"
      by auto
    show ?thesis
      unfolding build_rows_step [OF True cols]
      using "1.IH" [OF True cols] "1.prems" by simp
  qed
qed

lemma build_total:
  assumes "img \<noteq> []" and "img ! 0 \<noteq> []" and "\<forall>row\<in>set img. length row = length (img ! 0)"
  shows "\<exists>ps. build ps0 img = Inr ps"
proof -
  let ?h = "length img" and ?w = "length (img ! 0)"
  let ?z = "replicate (?h + 1) (replicate (?w + 1) (0::int64))"
  have "\<forall>r<?h. ?w \<le> length (img ! r)"
    using assms(3) by simp
  with build_rows_total [of 1 ?h img ?w "(?z, ?z)"] obtain p q
    where rows: "build_rows img ?h ?w 1 (?z, ?z) = Inr (p, q)"
    by auto
  have unf: "build ps0 img =
      (case build_rows img ?h ?w 1 (?z, ?z) of
         Inl e \<Rightarrow> Inl e
       | Inr (p, q) \<Rightarrow>
           Inr \<lparr>height = int ?h, width = int ?w, built = True, prefix = p,
                prefixSquares = q, totalSum = p ! ?h ! ?w,
                totalPixels = word_of_nat ?h * word_of_nat ?w\<rparr>)"
    using assms(1,2) unfolding build_def Let_def by (simp only: if_False simp_thms)
  show ?thesis unfolding unf rows by simp
qed

lemma sum_lessThan_diff:
  fixes g :: "nat \<Rightarrow> 'a::ab_group_add"
  assumes "a \<le> b"
  shows "(\<Sum>r<b. g r) - (\<Sum>r<a. g r) = (\<Sum>r = a..<b. g r)"
proof -
  have "sum g {0..<a} + sum g {a..<b} = sum g {0..<b}"
    using assms by (intro sum.atLeastLessThan_concat) simp_all
  then show ?thesis
    by (simp add: lessThan_atLeast0 algebra_simps)
qed

lemma rect_sum_query:
  fixes f :: "nat \<Rightarrow> nat \<Rightarrow> 'a::ab_group_add"
  assumes "a \<le> a'" and "b \<le> b'"
  shows "rect_sum f a' b' - rect_sum f a b' - rect_sum f a' b + rect_sum f a b
         = (\<Sum>r = a..<a'. \<Sum>c = b..<b'. f r c)"
proof -
  have 1: "rect_sum f a' b' - rect_sum f a b' = (\<Sum>r = a..<a'. \<Sum>c<b'. f r c)"
    unfolding rect_sum_def using assms(1) by (rule sum_lessThan_diff)
  have 2: "rect_sum f a' b - rect_sum f a b = (\<Sum>r = a..<a'. \<Sum>c<b. f r c)"
    unfolding rect_sum_def using assms(1) by (rule sum_lessThan_diff)
  have "rect_sum f a' b' - rect_sum f a b' - rect_sum f a' b + rect_sum f a b
        = (rect_sum f a' b' - rect_sum f a b') - (rect_sum f a' b - rect_sum f a b)"
    by (simp add: algebra_simps)
  also have "\<dots> = (\<Sum>r = a..<a'. (\<Sum>c<b'. f r c) - (\<Sum>c<b. f r c))"
    unfolding 1 2 by (simp add: sum_subtractf)
  also have "\<dots> = (\<Sum>r = a..<a'. \<Sum>c = b..<b'. f r c)"
    using assms(2) by (simp add: sum_lessThan_diff)
  finally show ?thesis .
qed

lemma sum_list_upto_clamp:
  fixes g :: "nat \<Rightarrow> 'a::comm_monoid_add"
  shows "(\<Sum>r\<leftarrow>[a..b]. if 0 \<le> r \<and> r < int n then g (nat r) else 0)
         = (\<Sum>k = nat (max 0 a)..<nat (min (int n - 1) b + 1). g k)"
proof -
  let ?A = "max 0 a" and ?B = "min (int n - 1) b"
  have "(\<Sum>r\<leftarrow>[a..b]. if 0 \<le> r \<and> r < int n then g (nat r) else 0)
        = (\<Sum>r\<in>{a..b}. if r \<in> {r. 0 \<le> r \<and> r < int n} then g (nat r) else 0)"
    by (simp add: sum_list_distinct_conv_sum_set)
  also have "\<dots> = (\<Sum>r\<in>{a..b} \<inter> {r. 0 \<le> r \<and> r < int n}. g (nat r))"
    by (rule sum.inter_restrict [symmetric]) simp
  also have "{a..b} \<inter> {r. 0 \<le> r \<and> r < int n} = {?A..?B}"
    by auto
  also have "(\<Sum>r\<in>{?A..?B}. g (nat r)) = (\<Sum>k = nat ?A..<nat (?B + 1). g k)"
    by (rule sum.reindex_bij_witness [where i = int and j = nat]) auto
  finally show ?thesis .
qed

lemma brute_rect:
  fixes F :: "nat \<Rightarrow> nat \<Rightarrow> 'a::comm_monoid_add"
  shows "(\<Sum>r\<leftarrow>[r1..r2]. \<Sum>c\<leftarrow>[c1..c2].
            if r \<ge> 0 \<and> r < int h \<and> c \<ge> 0 \<and> c < int w then F (nat r) (nat c) else 0)
         = (\<Sum>r = nat (max 0 r1)..<nat (min (int h - 1) r2 + 1).
              \<Sum>c = nat (max 0 c1)..<nat (min (int w - 1) c2 + 1). F r c)"
proof -
  let ?G = "\<lambda>k. \<Sum>c = nat (max 0 c1)..<nat (min (int w - 1) c2 + 1). F k c"
  have inner: "(\<Sum>c\<leftarrow>[c1..c2].
                  if r \<ge> 0 \<and> r < int h \<and> c \<ge> 0 \<and> c < int w then F (nat r) (nat c) else 0)
               = (if 0 \<le> r \<and> r < int h then ?G (nat r) else 0)" for r
  proof (cases "0 \<le> r \<and> r < int h")
    case True
    then have "(\<Sum>c\<leftarrow>[c1..c2].
                  if r \<ge> 0 \<and> r < int h \<and> c \<ge> 0 \<and> c < int w then F (nat r) (nat c) else 0)
               = (\<Sum>c\<leftarrow>[c1..c2]. if 0 \<le> c \<and> c < int w then F (nat r) (nat c) else 0)"
      by simp
    also have "\<dots> = ?G (nat r)"
      by (rule sum_list_upto_clamp)
    finally show ?thesis using True by simp
  next
    case False
    then show ?thesis by auto
  qed
  show ?thesis
    unfolding inner by (rule sum_list_upto_clamp)
qed


lemma query4_unfold:
  "query4 ps t r1 c1 r2 c2 =
     (if \<not> built ps then Inr 0
      else if max 0 r1 > min (height ps - 1) r2 \<or> max 0 c1 > min (width ps - 1) c2 then Inr 0
      else
        ebind (vec_at2 t (min (height ps - 1) r2 + 1) (min (width ps - 1) c2 + 1)) (\<lambda>a.
        ebind (vec_at2 t (max 0 r1) (min (width ps - 1) c2 + 1)) (\<lambda>b.
        ebind (vec_at2 t (min (height ps - 1) r2 + 1) (max 0 c1)) (\<lambda>c.
        ebind (vec_at2 t (max 0 r1) (max 0 c1)) (\<lambda>d. Inr (a - b - c + d))))))"
  unfolding query4_def Let_def ..

lemma query4_value:
  fixes f :: "nat \<Rightarrow> nat \<Rightarrow> int64"
  assumes b: "built ps" and h: "height ps = int h" and w: "width ps = int w"
    and t: "table_of f h w t"
  shows "query4 ps t r1 c1 r2 c2 =
         Inr (\<Sum>r = nat (max 0 r1)..<nat (min (int h - 1) r2 + 1).
                \<Sum>c = nat (max 0 c1)..<nat (min (int w - 1) c2 + 1). f r c)"
proof -
  define R1 where "R1 = max 0 r1"
  define C1 where "C1 = max 0 c1"
  define R2 where "R2 = min (int h - 1) r2"
  define C2 where "C2 = min (int w - 1) c2"
  have nn: "0 \<le> R1" "0 \<le> C1" and ub: "R2 \<le> int h - 1" "C2 \<le> int w - 1"
    by (simp_all add: R1_def C1_def R2_def C2_def)
  have q: "query4 ps t r1 c1 r2 c2 =
     (if R1 > R2 \<or> C1 > C2 then Inr 0
      else
        ebind (vec_at2 t (R2 + 1) (C2 + 1)) (\<lambda>a.
        ebind (vec_at2 t R1 (C2 + 1)) (\<lambda>b.
        ebind (vec_at2 t (R2 + 1) C1) (\<lambda>c.
        ebind (vec_at2 t R1 C1) (\<lambda>d. Inr (a - b - c + d))))))"
    unfolding query4_unfold h w R1_def C1_def R2_def C2_def using b by simp
  have goal: "?thesis \<longleftrightarrow> query4 ps t r1 c1 r2 c2 =
         Inr (\<Sum>r = nat R1..<nat (R2 + 1). \<Sum>c = nat C1..<nat (C2 + 1). f r c)"
    unfolding R1_def C1_def R2_def C2_def ..
  show ?thesis
    unfolding goal
  proof (cases "R1 > R2 \<or> C1 > C2")
    case True
    have "(\<Sum>r = nat R1..<nat (R2 + 1). \<Sum>c = nat C1..<nat (C2 + 1). f r c) = 0"
    proof (cases "R1 > R2")
      case True
      then have e: "{nat R1..<nat (R2 + 1)} = {}" using nn by simp
      show ?thesis unfolding e by simp
    next
      case False
      with \<open>R1 > R2 \<or> C1 > C2\<close> have e: "{nat C1..<nat (C2 + 1)} = {}" using nn by simp
      show ?thesis unfolding e by simp
    qed
    with True show "query4 ps t r1 c1 r2 c2 =
         Inr (\<Sum>r = nat R1..<nat (R2 + 1). \<Sum>c = nat C1..<nat (C2 + 1). f r c)"
      unfolding q by simp
  next
    case False
    then have ord: "R1 \<le> R2" "C1 \<le> C2" by simp_all
    have len: "length t = h + 1" and rows: "\<And>a. a \<le> h \<Longrightarrow> length (t ! a) = w + 1"
      and val: "\<And>a b. a \<le> h \<Longrightarrow> b \<le> w \<Longrightarrow> t ! a ! b = rect_sum f a b"
      using t by (auto simp: table_of_def)
    have rb: "nat R1 \<le> nat (R2 + 1)" "nat (R2 + 1) \<le> h" "nat R1 \<le> h"
      using ord(1) nn(1) ub(1) by linarith+
    have cb: "nat C1 \<le> nat (C2 + 1)" "nat (C2 + 1) \<le> w" "nat C1 \<le> w"
      using ord(2) nn(2) ub(2) by linarith+
    have get: "vec_at2 t i j = Inr (rect_sum f (nat i) (nat j))"
      if "0 \<le> i" "nat i \<le> h" "0 \<le> j" "nat j \<le> w" for i j
    proof -
      have "nat i < length t" using that len by simp
      moreover have "nat j < length (t ! nat i)" using that rows [of "nat i"] by simp
      ultimately have "vec_at2 t i j = Inr (t ! nat i ! nat j)"
        using that by (intro vec_at2_in_range) simp_all
      then show ?thesis using val [of "nat i" "nat j"] that by simp
    qed
    have p2: "0 \<le> R2 + 1" "0 \<le> C2 + 1"
      using ord nn by linarith+
    have a: "vec_at2 t (R2 + 1) (C2 + 1) = Inr (rect_sum f (nat (R2 + 1)) (nat (C2 + 1)))"
      by (rule get [OF p2(1) rb(2) p2(2) cb(2)])
    have b': "vec_at2 t R1 (C2 + 1) = Inr (rect_sum f (nat R1) (nat (C2 + 1)))"
      by (rule get [OF nn(1) rb(3) p2(2) cb(2)])
    have c: "vec_at2 t (R2 + 1) C1 = Inr (rect_sum f (nat (R2 + 1)) (nat C1))"
      by (rule get [OF p2(1) rb(2) nn(2) cb(3)])
    have d: "vec_at2 t R1 C1 = Inr (rect_sum f (nat R1) (nat C1))"
      by (rule get [OF nn(1) rb(3) nn(2) cb(3)])
    have "query4 ps t r1 c1 r2 c2 =
            Inr (rect_sum f (nat (R2 + 1)) (nat (C2 + 1)) - rect_sum f (nat R1) (nat (C2 + 1))
                 - rect_sum f (nat (R2 + 1)) (nat C1) + rect_sum f (nat R1) (nat C1))"
      unfolding q a b' c d ebind_def using False by simp
    then show "query4 ps t r1 c1 r2 c2 =
         Inr (\<Sum>r = nat R1..<nat (R2 + 1). \<Sum>c = nat C1..<nat (C2 + 1). f r c)"
      unfolding rect_sum_query [OF rb(1) cb(1)] .
  qed
qed

lemma sum_list_upto_cong:
  fixes g g' :: "int \<Rightarrow> 'a::comm_monoid_add"
  assumes "\<And>r. a \<le> r \<Longrightarrow> r \<le> b \<Longrightarrow> g r = g' r"
  shows "(\<Sum>r\<leftarrow>[a..b]. g r) = (\<Sum>r\<leftarrow>[a..b]. g' r)"
  by (rule arg_cong [where f = sum_list], rule map_cong) (use assms in auto)

lemma bruteSum_cellSum:
  assumes "0 \<le> row1 R" "row2 R < int (length img)" "0 \<le> col1 R"
    "col2 R < int (length (img ! 0))"
  shows "bruteSum img R = cellSum img R" "bruteSumSquares img R = cellSumSquares img R"
  unfolding bruteSum_def cellSum_def bruteSumSquares_def cellSumSquares_def
  using assms by (auto intro!: sum_list_upto_cong)

text \<open>
  C1: for a non-empty rectangular raster, \<open>build\<close> succeeds, and on the index it
  builds \<open>querySum\<close> returns the brute-force sum of \<open>verify\<close> for every region,
  \<open>querySumSquares\<close> the brute-force sum of squares (so \<open>verify\<close> returns true); for
  a valid region inside the raster these are the sums of the cell values and of their
  squares over the region.
\<close>

theorem querySum_correct:
  assumes "img \<noteq> []" and "img ! 0 \<noteq> []"
    and "\<forall>row\<in>set img. length row = length (img ! 0)"
  shows "\<exists>ps. build ps0 img = Inr ps \<and> built ps
           \<and> height ps = int (length img) \<and> width ps = int (length (img ! 0))
           \<and> (\<forall>R. querySum ps R = Inr (bruteSum img R)
                  \<and> querySumSquares ps R = Inr (bruteSumSquares img R)
                  \<and> verify ps img R = Inr True)
           \<and> (\<forall>R. isValid R \<and> 0 \<le> row1 R \<and> row2 R < height ps
                    \<and> 0 \<le> col1 R \<and> col2 R < width ps
                  \<longrightarrow> querySum ps R = Inr (cellSum img R)
                      \<and> querySumSquares ps R = Inr (cellSumSquares img R))"
proof -
  from build_total [OF assms] obtain ps where ps: "build ps0 img = Inr ps" ..
  note B = build_Inr [OF ps assms(1,2)]
  have sum: "querySum ps R = Inr (bruteSum img R)" for R
    unfolding querySum_def querySum4_def bruteSum_def
    using query4_value [of ps "length img" "length (img ! 0)" "pixelValue img" "prefix ps"] B
    by (simp add: brute_rect [where F = "pixelValue img", unfolded pixelValue_def] pixelValue_def)
  have sq: "querySumSquares ps R = Inr (bruteSumSquares img R)" for R
    unfolding querySumSquares_def querySumSquares4_def bruteSumSquares_def
    using query4_value [of ps "length img" "length (img ! 0)" "pixelSquare img" "prefixSquares ps"] B
    by (simp add: brute_rect [where F = "pixelSquare img", unfolded pixelSquare_def] pixelSquare_def)
  have ver: "verify ps img R = Inr True" for R
    by (simp add: verify_def sum sq ebind_def)
  show ?thesis
    using ps B sum sq ver bruteSum_cellSum [of _ img]
    by (intro exI [of _ ps]) simp
qed

theorem querySum_correct_witness:
  "\<exists>ps. build PrefixSum_new [[1, 2, 3], [4, 5, 6]] = Inr ps
     \<and> querySum ps (mkRegion 0 1 1 2) = Inr 16
     \<and> querySumSquares ps (mkRegion 0 1 1 2) = Inr 74
     \<and> cellSum [[1, 2, 3], [4, 5, 6]] (mkRegion 0 1 1 2) = 16
     \<and> cellSumSquares [[1, 2, 3], [4, 5, 6]] (mkRegion 0 1 1 2) = 74"
proof -
  let ?img = "[[1, 2, 3], [4, 5, 6]] :: Matrix"
  let ?R = "mkRegion 0 1 1 2"
  have "?img \<noteq> []" and "?img ! 0 \<noteq> []" and "\<forall>row\<in>set ?img. length row = length (?img ! 0)"
    by simp_all
  from querySum_correct [OF this, of PrefixSum_new] obtain ps where
    b: "build PrefixSum_new ?img = Inr ps" and h: "height ps = 2" and w: "width ps = 3"
    and q: "\<forall>R. isValid R \<and> 0 \<le> row1 R \<and> row2 R < height ps
                    \<and> 0 \<le> col1 R \<and> col2 R < width ps
                  \<longrightarrow> querySum ps R = Inr (cellSum ?img R)
                      \<and> querySumSquares ps R = Inr (cellSumSquares ?img R)"
    by auto
  have v: "isValid ?R \<and> 0 \<le> row1 ?R \<and> row2 ?R < height ps \<and> 0 \<le> col1 ?R \<and> col2 ?R < width ps"
    by (simp add: isValid_def mkRegion_def h w)
  have c: "cellSum ?img ?R = 16" "cellSumSquares ?img ?R = 74"
    by code_simp+
  from q v have "querySum ps ?R = Inr (cellSum ?img ?R)"
    and "querySumSquares ps ?R = Inr (cellSumSquares ?img ?R)"
    by blast+
  with b c show ?thesis by auto
qed

text \<open>
  C9: on an index that \<open>build\<close> has built, \<open>querySum\<close> and \<open>querySumSquares\<close> return
  a value for every four bounds, never an error; the result is that of the query with
  the bounds clamped to the raster; it is 0 when the clamped region is inverted, in
  particular when the region is inverted or lies fully outside the raster; and on an
  index that is not built the result is 0.
\<close>

theorem querySum_clamps_never_fails:
  assumes "build ps0 img = Inr ps" and "img \<noteq> []" and "img ! 0 \<noteq> []"
  shows "(\<exists>v. querySum4 ps r1 c1 r2 c2 = Inr v) \<and> (\<exists>v. querySumSquares4 ps r1 c1 r2 c2 = Inr v)
    \<and> querySum4 ps r1 c1 r2 c2
        = querySum4 ps (max 0 r1) (max 0 c1) (min (height ps - 1) r2) (min (width ps - 1) c2)
    \<and> querySumSquares4 ps r1 c1 r2 c2
        = querySumSquares4 ps (max 0 r1) (max 0 c1) (min (height ps - 1) r2) (min (width ps - 1) c2)
    \<and> (max 0 r1 > min (height ps - 1) r2 \<or> max 0 c1 > min (width ps - 1) c2
        \<longrightarrow> querySum4 ps r1 c1 r2 c2 = Inr 0 \<and> querySumSquares4 ps r1 c1 r2 c2 = Inr 0)
    \<and> (r1 > r2 \<or> c1 > c2 \<or> r2 < 0 \<or> c2 < 0 \<or> r1 \<ge> height ps \<or> c1 \<ge> width ps
        \<longrightarrow> querySum4 ps r1 c1 r2 c2 = Inr 0 \<and> querySumSquares4 ps r1 c1 r2 c2 = Inr 0)
    \<and> (\<not> built ps' \<longrightarrow> querySum4 ps' r1 c1 r2 c2 = Inr 0 \<and> querySumSquares4 ps' r1 c1 r2 c2 = Inr 0)"
proof -
  note B = build_Inr [OF assms]
  let ?h = "length img" and ?w = "length (img ! 0)"
  have s: "querySum4 ps a b c d =
      Inr (\<Sum>r = nat (max 0 a)..<nat (min (int ?h - 1) c + 1).
             \<Sum>k = nat (max 0 b)..<nat (min (int ?w - 1) d + 1). pixelValue img r k)" for a b c d
    unfolding querySum4_def using B by (intro query4_value) simp_all
  have q: "querySumSquares4 ps a b c d =
      Inr (\<Sum>r = nat (max 0 a)..<nat (min (int ?h - 1) c + 1).
             \<Sum>k = nat (max 0 b)..<nat (min (int ?w - 1) d + 1). pixelSquare img r k)" for a b c d
    unfolding querySumSquares4_def using B by (intro query4_value) simp_all
  have hw: "height ps = int ?h" "width ps = int ?w"
    using B by simp_all
  have inv: "querySum4 ps r1 c1 r2 c2 = Inr 0 \<and> querySumSquares4 ps r1 c1 r2 c2 = Inr 0"
    if "max 0 r1 > min (height ps - 1) r2 \<or> max 0 c1 > min (width ps - 1) c2"
    using that B unfolding querySum4_def querySumSquares4_def query4_unfold by simp
  have out: "max 0 r1 > min (height ps - 1) r2 \<or> max 0 c1 > min (width ps - 1) c2"
    if "r1 > r2 \<or> c1 > c2 \<or> r2 < 0 \<or> c2 < 0 \<or> r1 \<ge> height ps \<or> c1 \<ge> width ps"
    using that by auto
  have unb: "querySum4 ps' r1 c1 r2 c2 = Inr 0 \<and> querySumSquares4 ps' r1 c1 r2 c2 = Inr 0"
    if "\<not> built ps'"
    using that unfolding querySum4_def querySumSquares4_def query4_unfold by simp
  have cl1: "querySum4 ps r1 c1 r2 c2
        = querySum4 ps (max 0 r1) (max 0 c1) (min (height ps - 1) r2) (min (width ps - 1) c2)"
    unfolding s hw by simp
  have cl2: "querySumSquares4 ps r1 c1 r2 c2
        = querySumSquares4 ps (max 0 r1) (max 0 c1) (min (height ps - 1) r2) (min (width ps - 1) c2)"
    unfolding q hw by simp
  show ?thesis
    using s [of r1 c1 r2 c2] q [of r1 c1 r2 c2] cl1 cl2 inv out unb by blast
qed

theorem querySum_clamps_never_fails_witness:
  "\<exists>ps. build PrefixSum_new [[1, 2, 3], [4, 5, 6]] = Inr ps
     \<and> querySum4 ps (-1) 1 5 7 = Inr 16 \<and> querySum4 ps (-1) 1 5 7 = querySum4 ps 0 1 1 2
     \<and> querySum4 ps 1 2 0 2 = Inr 0 \<and> querySumSquares4 ps 1 2 0 2 = Inr 0
     \<and> querySum4 ps 2 0 4 1 = Inr 0 \<and> querySumSquares4 ps 2 0 4 1 = Inr 0
     \<and> querySum4 PrefixSum_new 0 0 1 1 = Inr 0"
proof -
  let ?img = "[[1, 2, 3], [4, 5, 6]] :: Matrix"
  obtain ps where b: "build PrefixSum_new ?img = Inr ps"
    using build_total [of ?img PrefixSum_new] by auto
  have ne: "?img \<noteq> []" "?img ! 0 \<noteq> []" by simp_all
  note B = build_Inr [OF b ne]
  have hw: "height ps = 2" "width ps = 3" using B by simp_all
  note T = querySum_clamps_never_fails [OF b ne]
  from T [of "-1" 1 5 7 PrefixSum_new] have
    e: "querySum4 ps (-1) 1 5 7
        = querySum4 ps (max 0 (-1)) (max 0 1) (min (height ps - 1) 5) (min (width ps - 1) 7)"
    by blast
  have 1: "querySum4 ps (-1) 1 5 7 = querySum4 ps 0 1 1 2"
    unfolding e hw by simp
  have "(0::int) < 1" by simp
  with T [of 1 2 0 2 PrefixSum_new]
  have 2: "querySum4 ps 1 2 0 2 = Inr 0 \<and> querySumSquares4 ps 1 2 0 2 = Inr 0"
    by blast
  have "height ps \<le> 2" using hw by simp
  with T [of 2 0 4 1 PrefixSum_new]
  have 3: "querySum4 ps 2 0 4 1 = Inr 0 \<and> querySumSquares4 ps 2 0 4 1 = Inr 0"
    by blast
  have "\<not> built PrefixSum_new" by (simp add: PrefixSum_new_def)
  with T [of 0 0 1 1 PrefixSum_new]
  have 4: "querySum4 PrefixSum_new 0 0 1 1 = Inr 0"
    by blast
  have "build PrefixSum_new ?img = Inr \<lparr>height = 2, width = 3, built = True,
          prefix = [[0, 0, 0, 0], [0, 1, 3, 6], [0, 5, 12, 21]],
          prefixSquares = [[0, 0, 0, 0], [0, 1, 5, 14], [0, 17, 46, 91]],
          totalSum = 21, totalPixels = 6\<rparr>"
    by code_simp
  with b have "ps = \<lparr>height = 2, width = 3, built = True,
          prefix = [[0, 0, 0, 0], [0, 1, 3, 6], [0, 5, 12, 21]],
          prefixSquares = [[0, 0, 0, 0], [0, 1, 5, 14], [0, 17, 46, 91]],
          totalSum = 21, totalPixels = 6\<rparr>"
    by simp
  then have 5: "querySum4 ps 0 1 1 2 = Inr 16"
    by (simp add: querySum4_def query4_unfold vec_at2_def vec_at_def ebind_def)
  from b 1 2 3 4 5 show ?thesis by auto
qed

section \<open>Properties of the tree construction\<close>

lemma RegionTree_build_reads:
  assumes "built ps = built ps'" and "height ps = height ps'" and "width ps = width ps'"
  shows "RegionTree_build (Some ps) minSize t = RegionTree_build (Some ps') minSize t"
  using assms by (simp add: RegionTree_build_def)

lemma build_square_raster:
  assumes "0 < n"
  shows "\<exists>ps. build PrefixSum_new (replicate n (replicate n 0)) = Inr ps
           \<and> built ps = built (example_index n) \<and> height ps = height (example_index n)
           \<and> width ps = width (example_index n)"
proof -
  let ?img = "replicate n (replicate n 0) :: Matrix"
  have ne: "?img \<noteq> []" "?img ! 0 \<noteq> []"
    using assms by auto
  have "\<forall>row\<in>set ?img. length row = length (?img ! 0)"
    using assms by simp
  from build_total [OF ne this, of PrefixSum_new] obtain ps where
    b: "build PrefixSum_new ?img = Inr ps" ..
  from build_Inr [OF b ne] assms show ?thesis
    by (intro exI [of _ ps]) (simp add: b example_index_def)
qed

text \<open>
  C2 (the code at a failing input): for a raster of 34 x 34 pixels and the default
  \<open>minRegionSize = 16\<close> the tree has 21 nodes, and \<open>build\<close> reserves room for
  \<open>(34 / 16 + 1) * (34 / 16 + 1) * 2 = 18\<close>. The nineteenth \<open>emplace_back\<close> moves the
  vector while \<open>buildRecursive\<close> still holds the references \<open>node\<close> of the root and of
  the SE quadrant, and the next \<open>node.children[i] = ...\<close> writes through a dangling
  reference.
\<close>

theorem RegionTree_build_dangling_reference:
  "\<exists>ps. build PrefixSum_new (replicate 34 (replicate 34 0)) = Inr ps
     \<and> RegionTree_build (Some ps) 16 (RegionTree_new :: real RegionTree)
         = Some (Inl DanglingReference)"
proof -
  from build_square_raster [of 34] obtain ps where
    b: "build PrefixSum_new (replicate 34 (replicate 34 0)) = Inr ps"
    and r: "built ps = built (example_index 34)" "height ps = height (example_index 34)"
      "width ps = width (example_index 34)"
    by auto
  have "RegionTree_build (Some (example_index 34)) 16 (RegionTree_new :: real RegionTree)
        = Some (Inl DanglingReference)"
    by code_simp
  with RegionTree_build_reads [OF r, of 16 "RegionTree_new :: real RegionTree"] b
  show ?thesis by auto
qed

text \<open>
  For a raster of 33 x 33 pixels the reserved capacity suffices, and \<open>build\<close> returns
  the nodes of \<open>example_tree\<close>, all with score 0.
\<close>

lemma example_tree_built:
  "\<exists>ps. build PrefixSum_new (replicate 33 (replicate 33 0)) = Inr ps
     \<and> RegionTree_build (Some ps) 16 RegionTree_new = Some (Inr (unscored example_tree))"
proof -
  from build_square_raster [of 33] obtain ps where
    b: "build PrefixSum_new (replicate 33 (replicate 33 0)) = Inr ps"
    and r: "built ps = built (example_index 33)" "height ps = height (example_index 33)"
      "width ps = width (example_index 33)"
    by auto
  have "RegionTree_build (Some (example_index 33)) 16 RegionTree_new
        = Some (Inr (unscored example_tree))"
    by code_simp
  with RegionTree_build_reads [OF r, of 16 "RegionTree_new :: real RegionTree"] b
  show ?thesis by auto
qed

section \<open>Properties of the anomaly detector\<close>

lemma detect_nodes_map:
  assumes "\<And>r. computeScore ops det r = Inr (sc r)"
  shows "detect_nodes ops det ns =
         Inr (map (\<lambda>n. n\<lparr>anomalyScore := sc (bounds n),
                           isAnomaly := isAnomalous det (sc (bounds n))\<rparr>) ns)"
  by (induction ns) (simp_all add: assms ebind_def)

lemma queryMean_built:
  assumes "build ps0 img = Inr ps" and "img \<noteq> []" and "img ! 0 \<noteq> []"
  shows "queryMean ops ps r = Inr (regionMean ops img r)"
proof -
  note B = build_Inr [OF assms]
  have "querySum ps r = Inr (bruteSum img r)"
    unfolding querySum_def querySum4_def bruteSum_def
    using query4_value [of ps "length img" "length (img ! 0)" "pixelValue img" "prefix ps"] B
    by (simp add: brute_rect [where F = "pixelValue img", unfolded pixelValue_def] pixelValue_def)
  then show ?thesis
    using B by (simp add: queryMean_def regionMean_def ebind_def)
qed

text \<open>
  C3: when the detector points to an index built over a raster, \<open>detectInTree\<close>
  returns, and afterwards every node of the tree (leaf or not) has the same bounds as
  before, \<open>anomalyScore\<close> equal to the deviation of the mean of the raster over its
  bounds from \<open>globalMean\<close>, divided by \<open>globalStdDev\<close> (0 when \<open>globalStdDev <
  1e-10\<close>), all computed with the machine's own operations, and \<open>isAnomaly\<close> equal to
  \<open>anomalyScore > threshold\<close>.
\<close>

theorem detectInTree_scores:
  assumes "build ps0 img = Inr ps" and "img \<noteq> []" and "img ! 0 \<noteq> []"
    and "prefixSum det = Some ps"
  shows "\<exists>tree'. detectInTree ops det tree = Inr tree'
           \<and> length (elems (nodes tree')) = length (elems (nodes tree))
           \<and> (\<forall>i < length (elems (nodes tree)).
                 bounds (elems (nodes tree') ! i) = bounds (elems (nodes tree) ! i)
               \<and> queryMean ops ps (bounds (elems (nodes tree) ! i))
                   = Inr (regionMean ops img (bounds (elems (nodes tree) ! i)))
               \<and> anomalyScore (elems (nodes tree') ! i)
                   = deviationScore ops det (regionMean ops img (bounds (elems (nodes tree) ! i)))
               \<and> isAnomaly (elems (nodes tree') ! i)
                   = (anomalyScore (elems (nodes tree') ! i) > threshold det))"
proof -
  note B = build_Inr [OF assms(1-3)]
  note M = queryMean_built [OF assms(1-3), of ops]
  have cs: "computeScore ops det r = Inr (deviationScore ops det (regionMean ops img r))" for r
    using assms(4) B by (simp add: computeScore_def deviationScore_def M ebind_def Let_def)
  let ?f = "\<lambda>n. n\<lparr>anomalyScore := deviationScore ops det (regionMean ops img (bounds n)),
                  isAnomaly := isAnomalous det (deviationScore ops det (regionMean ops img (bounds n)))\<rparr>"
  have dn: "detect_nodes ops det (elems (nodes tree)) = Inr (map ?f (elems (nodes tree)))"
    by (rule detect_nodes_map [OF cs])
  have "detectInTree ops det tree
        = Inr (tree\<lparr>nodes := (nodes tree)\<lparr>elems := map ?f (elems (nodes tree))\<rparr>\<rparr>)"
    using assms(4) B by (simp add: detectInTree_def dn ebind_def)
  then show ?thesis
    by (intro exI [of _ "tree\<lparr>nodes := (nodes tree)\<lparr>elems := map ?f (elems (nodes tree))\<rparr>\<rparr>"])
       (simp add: M isAnomalous_def)
qed

theorem detectInTree_scores_witness:
  "\<exists>ps tree'. build PrefixSum_new [[1, 2, 3], [4, 5, 6]] = Inr ps
     \<and> detectInTree real_ops \<lparr>prefixSum = Some ps, threshold = 2, globalMean = 7 / 2,
           globalStdDev = 1\<rparr> two_nodes = Inr tree'
     \<and> map anomalyScore (elems (nodes tree')) = [0, 5 / 2]
     \<and> map isAnomaly (elems (nodes tree')) = [False, True]"
proof -
  let ?img = "[[1, 2, 3], [4, 5, 6]] :: Matrix"
  obtain ps where b: "build PrefixSum_new ?img = Inr ps"
    using build_total [of ?img PrefixSum_new] by auto
  let ?det = "\<lparr>prefixSum = Some ps, threshold = 2, globalMean = 7 / 2, globalStdDev = 1 :: real\<rparr>"
  have ne: "?img \<noteq> []" "?img ! 0 \<noteq> []" by simp_all
  have p: "prefixSum ?det = Some ps" by simp
  from detectInTree_scores [OF b ne p, of real_ops two_nodes] obtain tree' where
    d: "detectInTree real_ops ?det two_nodes = Inr tree'"
    and l: "length (elems (nodes tree')) = length (elems (nodes two_nodes))"
    and s: "\<forall>i < length (elems (nodes two_nodes)).
              anomalyScore (elems (nodes tree') ! i)
                = deviationScore real_ops ?det (regionMean real_ops ?img (bounds (elems (nodes two_nodes) ! i)))
            \<and> isAnomaly (elems (nodes tree') ! i)
                = (anomalyScore (elems (nodes tree') ! i) > threshold ?det)"
    by blast
  have len: "length (elems (nodes two_nodes)) = 2"
    by (simp add: two_nodes_def RegionTree_new_def vector_new_def)
  have b0: "bounds (elems (nodes two_nodes) ! 0) = mkRegion 0 0 1 2"
    and b1: "bounds (elems (nodes two_nodes) ! 1) = mkRegion 1 2 1 2"
    by (simp_all add: two_nodes_def RegionTree_new_def vector_new_def)
  have br: "bruteSum ?img (mkRegion 0 0 1 2) = 21" "bruteSum ?img (mkRegion 1 2 1 2) = 6"
    by code_simp+
  have ar: "area (mkRegion 0 0 1 2) = 6" "area (mkRegion 1 2 1 2) = 1"
    by (simp_all add: area_def mkRegion_def)
  have m0: "regionMean real_ops ?img (mkRegion 0 0 1 2) = 7 / 2"
    by (simp add: regionMean_def br ar real_ops_def)
  have m1: "regionMean real_ops ?img (mkRegion 1 2 1 2) = 6"
    by (simp add: regionMean_def br ar real_ops_def)
  have d0: "deviationScore real_ops ?det (7 / 2) = 0"
    and d1: "deviationScore real_ops ?det 6 = 5 / 2"
    by (simp_all add: deviationScore_def real_ops_def)
  from s len have
    "anomalyScore (elems (nodes tree') ! 0)
       = deviationScore real_ops ?det (regionMean real_ops ?img (bounds (elems (nodes two_nodes) ! 0)))
     \<and> isAnomaly (elems (nodes tree') ! 0)
       = (anomalyScore (elems (nodes tree') ! 0) > threshold ?det)"
    by simp
  then have s0: "anomalyScore (elems (nodes tree') ! 0) = 0" "\<not> isAnomaly (elems (nodes tree') ! 0)"
    unfolding b0 m0 d0 by simp_all
  from s len have
    "anomalyScore (elems (nodes tree') ! 1)
       = deviationScore real_ops ?det (regionMean real_ops ?img (bounds (elems (nodes two_nodes) ! 1)))
     \<and> isAnomaly (elems (nodes tree') ! 1)
       = (anomalyScore (elems (nodes tree') ! 1) > threshold ?det)"
    by simp
  then have s1: "anomalyScore (elems (nodes tree') ! 1) = 5 / 2" "isAnomaly (elems (nodes tree') ! 1)"
    unfolding b1 m1 d1 by simp_all
  have l2: "length (elems (nodes tree')) = 2" using l len by simp
  have r1: "map anomalyScore (elems (nodes tree')) = [0, 5 / 2]"
    using l2 s0 s1 by (auto simp: list_eq_iff_nth_eq less_Suc_eq numeral_2_eq_2)
  have r2: "map isAnomaly (elems (nodes tree')) = [False, True]"
    using l2 s0 s1 by (auto simp: list_eq_iff_nth_eq less_Suc_eq numeral_2_eq_2)
  show ?thesis
    by (rule exI [of _ ps], rule exI [of _ tree'], intro conjI) (fact b d r1 r2)+
qed

section \<open>Properties of the top-K queries\<close>

lemma pq_top_nonempty: "q \<noteq> [] \<Longrightarrow> \<exists>x. pq_top q = Inr x"
  by (cases q) (simp_all add: pq_top_def)

lemma pq_pop_nonempty: "q \<noteq> [] \<Longrightarrow> \<exists>x. pq_pop q = Inr x"
  by (cases q) (simp_all add: pq_pop_def)

lemma offer_ok:
  assumes "1 \<le> k"
  shows "\<exists>h'. offer k ar h = Inr h'"
proof (cases "int (length h) < k")
  case True
  then show ?thesis by (simp add: offer_def)
next
  case False
  with assms have "h \<noteq> []" by auto
  then obtain x xs where "pq_top h = Inr x" "pq_pop h = Inr xs"
    using pq_top_nonempty pq_pop_nonempty by blast
  with False show ?thesis by (simp add: offer_def ebind_def)
qed

lemma offer_empty: "k \<le> 0 \<Longrightarrow> offer k ar [] = Inl EmptyQueue"
  by (simp add: offer_def pq_top_def ebind_def)

lemma topK_loop_ok:
  assumes "1 \<le> k"
  shows "\<exists>r. topK_loop k leafOnly ns st = Inr r"
proof (induction ns arbitrary: st)
  case Nil
  then show ?case by simp
next
  case (Cons node ns)
  obtain h v where st: "st = (h, v)" by (cases st)
  from offer_ok [OF assms] obtain h' where "offer k (mkAnomalyRegion node) h = Inr h'"
    by blast
  then show ?case
    using Cons.IH [of "(h, v)"] Cons.IH [of "(h', v + 1)"] by (auto simp: st ebind_def)
qed

lemma canPrune_ok:
  assumes "1 \<le> k"
  shows "\<exists>b. (if int (length h) \<ge> k
              then ebind (pq_top h) (\<lambda>topEl. Inr (anomalyScore node < score topEl))
              else Inr False) = Inr b"
proof (cases "int (length h) \<ge> k")
  case True
  with assms have "h \<noteq> []" by auto
  then obtain x where "pq_top h = Inr x" using pq_top_nonempty by blast
  with True show ?thesis by (simp add: ebind_def)
next
  case False
  then show ?thesis by auto
qed

lemma pruning_loop_Nil: "pruning_loop k ns [] st = Some (Inr st)"
  by (subst pruning_loop.simps) simp

lemma pruning_loop_skip:
  "idx < 0 \<or> idx \<ge> int (length ns) \<Longrightarrow> pruning_loop k ns (idx # rest) st = pruning_loop k ns rest st"
  by (subst pruning_loop.simps) simp

lemma pruning_loop_step:
  assumes "1 \<le> k" and "0 \<le> idx" and "idx < int (length ns)"
  shows "\<exists>st'. pruning_loop k ns (idx # rest) st = pruning_loop k ns rest st'
           \<or> pruning_loop k ns (idx # rest) st
              = pruning_loop k ns (rest @ filter (\<lambda>c. c \<ge> 0) (children (ns ! nat idx))) st'"
proof -
  obtain h v p where st: "st = (h, v, p)" by (cases st)
  let ?node = "ns ! nat idx"
  from canPrune_ok [OF assms(1), of h ?node] obtain b where
    cp: "(if int (length h) \<ge> k
          then ebind (pq_top h) (\<lambda>topEl. Inr (anomalyScore ?node < score topEl))
          else Inr False) = Inr b"
    by blast
  from offer_ok [OF assms(1)] obtain h' where off: "offer k (mkAnomalyRegion ?node) h = Inr h'"
    by blast
  have unf: "pruning_loop k ns (idx # rest) st =
     (if b \<and> \<not> isLeaf ?node then pruning_loop k ns rest (h, v + 1, p + 1)
      else if isLeaf ?node then pruning_loop k ns rest (h', v + 1, p)
      else pruning_loop k ns (rest @ filter (\<lambda>c. c \<ge> 0) (children ?node)) (h, v + 1, p))"
    using assms(2,3)
    by (subst pruning_loop.simps) (simp add: st Let_def cp off del: if_split cong: if_cong)
  show ?thesis
    unfolding unf by (cases "b \<and> \<not> isLeaf ?node"; cases "isLeaf ?node") auto
qed


lemma pruning_loop_safe:
  assumes "pruning_loop k ns q st = Some y" and "1 \<le> k"
  shows "\<exists>r. y = Inr r"
proof -
  have "1 \<le> k \<longrightarrow> (\<exists>r. y = Inr r)"
    using assms(1)
  proof (rule pruning_loop.raw_induct [where P = "\<lambda>k ns q st y. 1 \<le> k \<longrightarrow> (\<exists>r. y = Inr r)", rotated])
    fix f :: "int \<Rightarrow> 'a RegionTreeNode list \<Rightarrow> int list \<Rightarrow> 'a AnomalyRegion list \<times> int \<times> int
              \<Rightarrow> (error + 'a AnomalyRegion list \<times> int \<times> int) option"
      and k ns toVisit st ka
    assume IH: "\<And>k ns toVisit st y. f k ns toVisit st = Some y \<Longrightarrow> 1 \<le> k \<longrightarrow> (\<exists>r. y = Inr r)"
      and body: "(case toVisit of [] \<Rightarrow> Some (Inr st)
      | idx # rest \<Rightarrow>
          if idx < 0 \<or> int (length ns) \<le> idx then f k ns rest st
          else let node = ns ! nat idx; (minHeap, visited, pruned) = st;
                   visited = visited + 1
               in case if k \<le> int (length minHeap)
                       then ebind (pq_top minHeap)
                             (\<lambda>topEl. Inr (anomalyScore node < score topEl))
                       else Inr False of
                  Inl e \<Rightarrow> Some (Inl e)
                  | Inr canPrune \<Rightarrow>
                      if canPrune \<and> \<not> isLeaf node
                      then f k ns rest (minHeap, visited, pruned + 1)
                      else if isLeaf node
                           then case offer k (mkAnomalyRegion node) minHeap of
                                Inl e \<Rightarrow> Some (Inl e)
                                | Inr minHeap' \<Rightarrow> f k ns rest (minHeap', visited, pruned)
                           else f k ns (rest @ filter ((\<le>) 0) (children node))
                                 (minHeap, visited, pruned)) = Some ka"
    show "1 \<le> k \<longrightarrow> (\<exists>r. ka = Inr r)"
    proof
      assume k: "1 \<le> k"
      show "\<exists>r. ka = Inr r"
      proof (cases toVisit)
        case Nil
        with body have "ka = Inr st" by auto
        then show ?thesis by blast
      next
        case (Cons idx rest)
        show ?thesis
        proof (cases "idx < 0 \<or> int (length ns) \<le> idx")
          case True
          with body Cons IH k show ?thesis by simp
        next
          case False
          obtain h v p where st: "st = (h, v, p)" by (cases st)
          let ?node = "ns ! nat idx"
          from canPrune_ok [OF k, of h ?node] obtain b where
            cp: "(if int (length h) \<ge> k
                  then ebind (pq_top h) (\<lambda>topEl. Inr (anomalyScore ?node < score topEl))
                  else Inr False) = Inr b"
            by blast
          from offer_ok [OF k] obtain h' where
            off: "offer k (mkAnomalyRegion ?node) h = Inr h'"
            by blast
          from body have "(if b \<and> \<not> isLeaf ?node then f k ns rest (h, v + 1, p + 1)
              else if isLeaf ?node then f k ns rest (h', v + 1, p)
              else f k ns (rest @ filter ((\<le>) 0) (children ?node)) (h, v + 1, p)) = Some ka"
            using False
            by (simp add: Cons st Let_def cp off del: if_split cong: if_cong)
          then show ?thesis
            using IH k by (auto split: if_splits)
        qed
      qed
    qed
  qed
  with assms(2) show ?thesis by simp
qed

lemma weight_pos: "1 \<le> weight n idx"
  by (simp add: weight_def)

lemma sum_list_bound:
  fixes f :: "'a \<Rightarrow> nat"
  assumes "\<And>x. x \<in> set xs \<Longrightarrow> f x \<le> B"
  shows "sum_list (map f xs) \<le> length xs * B"
  using assms by (induction xs) (auto intro: add_mono)

lemma weight_child:
  assumes "0 \<le> idx" and "idx < int n" and "idx < c"
  shows "weight n c \<le> 5 ^ (n - nat idx - 1)"
proof (cases "c < int n")
  case True
  then have "n - nat c \<le> n - nat idx - 1"
    using assms by linarith
  then have "(5::nat) ^ (n - nat c) \<le> 5 ^ (n - nat idx - 1)"
    by (intro power_increasing) simp_all
  with True assms show ?thesis by (simp add: weight_def)
next
  case False
  then show ?thesis by (simp add: weight_def)
qed

lemma weight_children:
  assumes fw: "forward_children ns" and i: "0 \<le> idx" "idx < int (length ns)"
  shows "sum_list (map (weight (length ns)) (filter (\<lambda>c. c \<ge> 0) (children (ns ! nat idx))))
         < weight (length ns) idx"
proof -
  let ?n = "length ns" and ?cs = "filter (\<lambda>c. c \<ge> 0) (children (ns ! nat idx))"
  have ni: "nat idx < ?n" using i by simp
  from fw ni have len: "length (children (ns ! nat idx)) = 4"
    and fwd: "\<And>c. c \<in> set (children (ns ! nat idx)) \<Longrightarrow> c \<ge> 0 \<Longrightarrow> c > idx"
    using i(1) unfolding forward_children_def by force+
  have "sum_list (map (weight ?n) ?cs) \<le> length ?cs * 5 ^ (?n - nat idx - 1)"
    using fwd i by (intro sum_list_bound weight_child) auto
  also have "\<dots> \<le> 4 * 5 ^ (?n - nat idx - 1)"
    using length_filter_le [of "\<lambda>c. c \<ge> 0" "children (ns ! nat idx)"] len by simp
  also have "\<dots> < 5 * 5 ^ (?n - nat idx - 1)"
    by simp
  also have "\<dots> = 5 ^ Suc (?n - nat idx - 1)"
    by simp
  also have "Suc (?n - nat idx - 1) = ?n - nat idx"
    using ni by simp
  finally have "sum_list (map (weight ?n) ?cs) < 5 ^ (?n - nat idx)" .
  moreover have "weight ?n idx = 5 ^ (?n - nat idx)"
    using i by (simp add: weight_def)
  ultimately show ?thesis by simp
qed

lemma pruning_loop_terminates:
  assumes k: "1 \<le> k" and fw: "forward_children ns"
  shows "\<exists>r. pruning_loop k ns q st = Some (Inr r)"
proof (induction "sum_list (map (weight (length ns)) q)" arbitrary: q st rule: less_induct)
  case less
  show ?case
  proof (cases q)
    case Nil
    then have "pruning_loop k ns q st = Some (Inr st)" by (simp add: pruning_loop_Nil)
    then show ?thesis by blast
  next
    case (Cons idx rest)
    have smaller: "sum_list (map (weight (length ns)) rest) < sum_list (map (weight (length ns)) q)"
      using weight_pos [of "length ns" idx] by (simp add: Cons)
    show ?thesis
    proof (cases "idx < 0 \<or> idx \<ge> int (length ns)")
      case True
      then show ?thesis
        using less [OF smaller] by (simp add: Cons pruning_loop_skip)
    next
      case False
      then have i: "0 \<le> idx" "idx < int (length ns)" by auto
      from pruning_loop_step [OF k i, of rest st] obtain st' where
        "pruning_loop k ns (idx # rest) st = pruning_loop k ns rest st'
         \<or> pruning_loop k ns (idx # rest) st
            = pruning_loop k ns (rest @ filter (\<lambda>c. c \<ge> 0) (children (ns ! nat idx))) st'"
        by blast
      then show ?thesis
      proof
        assume "pruning_loop k ns (idx # rest) st = pruning_loop k ns rest st'"
        then show ?thesis using less [OF smaller] by (simp add: Cons)
      next
        let ?q' = "rest @ filter (\<lambda>c. c \<ge> 0) (children (ns ! nat idx))"
        assume e: "pruning_loop k ns (idx # rest) st = pruning_loop k ns ?q' st'"
        have "sum_list (map (weight (length ns)) ?q') < sum_list (map (weight (length ns)) q)"
          using weight_children [OF fw i] by (simp add: Cons)
        from less [OF this] show ?thesis by (simp add: Cons e)
      qed
    qed
  qed
qed

lemma forward_children_code [code]:
  "forward_children ns \<longleftrightarrow>
     (\<forall>i \<in> set [0..<length ns]. length (children (ns ! i)) = 4
        \<and> (\<forall>c \<in> set (children (ns ! i)). c \<ge> 0 \<longrightarrow> c > int i))"
  by (auto simp: forward_children_def)

lemma topK_loop_empty_top:
  assumes "k \<le> 0" and "\<exists>n\<in>set ns. \<not> leafOnly \<or> isLeaf n"
  shows "topK_loop k leafOnly ns ([], v) = Inl EmptyQueue"
  using assms(2)
proof (induction ns)
  case Nil
  then show ?case by simp
next
  case (Cons node ns)
  show ?case
  proof (cases "leafOnly \<and> \<not> isLeaf node")
    case True
    with Cons show ?thesis by auto
  next
    case False
    then show ?thesis
      using assms(1) by (auto simp: offer_empty ebind_def)
  qed
qed

lemma pruning_loop_empty_top:
  assumes "k \<le> 0" and "ns \<noteq> []"
  shows "pruning_loop k ns [0] ([], 0, 0) = Some (Inl EmptyQueue)"
  using assms by (subst pruning_loop.simps) (simp add: pq_top_def ebind_def)

text \<open>
  C4 (the code at a failing input): on \<open>example_tree\<close>, whose seven leaves have the
  scores 1 to 7 in the order of the vector, \<open>topKAnomalies(2, true)\<close> returns the
  leaves with the scores 1 and 7, in this order. The queue is declared with
  \<open>std::greater\<close> over an \<open>operator>\<close> that is itself inverted, so its top is the
  largest score: once the queue is full, a new leaf replaces the largest element, the
  smaller ones stay, and the result is in ascending order.
\<close>

theorem topKAnomalies_keeps_smallest:
  "topKAnomalies (Some example_tree) 2 True =
     Inr \<lparr>regions = [\<lparr>region = mkRegion 0 0 8 8, score = 1, nodeId = 2\<rparr>,
                     \<lparr>region = mkRegion 17 17 32 32, score = 7, nodeId = 8\<rparr>],
          nodesVisited = 7, nodesPruned = 0\<rparr>
   \<and> map node_id (getLeaves example_tree) = [2, 3, 4, 5, 6, 7, 8]
   \<and> map anomalyScore (getLeaves example_tree) = [1, 2, 3, 4, 5, 6, 7]"
  by code_simp

text \<open>
  C5 (the code at a failing input): on the same tree every inner node's score bounds
  the scores of the leaves below it, and \<open>topKWithPruning(2)\<close> returns the leaves 6
  and 8 where \<open>topKAnomalies(2, true)\<close> returns the leaves 2 and 8. No subtree is
  pruned: the two functions visit the leaves in different orders (breadth-first, and
  the order of the vector), and what the queue keeps depends on the order.
\<close>

theorem topKWithPruning_differs:
  "topKWithPruning (Some example_tree) 2 =
     Some (Inr \<lparr>regions = [\<lparr>region = mkRegion 0 17 16 32, score = 5, nodeId = 6\<rparr>,
                           \<lparr>region = mkRegion 17 17 32 32, score = 7, nodeId = 8\<rparr>],
                nodesVisited = 9, nodesPruned = 0\<rparr>)
   \<and> (case topKAnomalies (Some example_tree) 2 True of
        Inl e \<Rightarrow> [] | Inr r \<Rightarrow> map nodeId (regions r)) = [2, 8]
   \<and> list_all (\<lambda>n. anomalyScore n \<le> anomalyScore (example_nodes ! 0)) (getLeaves example_tree)
   \<and> list_all (\<lambda>i. anomalyScore (example_nodes ! i) \<le> anomalyScore (example_nodes ! 1))
        [2, 3, 4, 5]
   \<and> children (example_nodes ! 0) = [1, 6, 7, 8] \<and> children (example_nodes ! 1) = [2, 3, 4, 5]
   \<and> map node_id (getLeaves example_tree) = [2, 3, 4, 5, 6, 7, 8]"
  by code_simp

text \<open>
  C10: for \<open>k \<ge> 1\<close> neither function reads the top of an empty queue:
  \<open>topKAnomalies\<close> returns a result on every vector of nodes, \<open>topKWithPruning\<close>
  returns no error on any vector and returns a result on every vector in which the
  children stand after their parents. For \<open>k \<le> 0\<close> the test \<open>size >= k\<close> holds of the
  empty queue, and the first node visited makes both functions read its top.
\<close>

theorem top_read_guarded:
  "(1 \<le> k \<longrightarrow>
      (\<exists>r. topKAnomalies regionTree k leafOnly = Inr r)
      \<and> (\<forall>y. topKWithPruning regionTree k = Some y \<longrightarrow> (\<exists>r. y = Inr r))
      \<and> (forward_children (elems (nodes tree))
          \<longrightarrow> (\<exists>r. topKWithPruning (Some tree) k = Some (Inr r))))
   \<and> (k \<le> 0 \<and> (\<exists>n\<in>set (elems (nodes tree)). \<not> leafOnly \<or> isLeaf n)
      \<longrightarrow> topKAnomalies (Some tree) k leafOnly = Inl EmptyQueue)
   \<and> (k \<le> 0 \<and> elems (nodes tree) \<noteq> []
      \<longrightarrow> topKWithPruning (Some tree) k = Some (Inl EmptyQueue))"
proof (intro conjI impI allI)
  assume k: "1 \<le> k"
  show "\<exists>r. topKAnomalies regionTree k leafOnly = Inr r"
  proof (cases regionTree)
    case None
    then show ?thesis by (simp add: topKAnomalies_def)
  next
    case (Some t)
    from topK_loop_ok [OF k, of leafOnly "elems (nodes t)" "([], 0)"] obtain h v where
      "topK_loop k leafOnly (elems (nodes t)) ([], 0) = Inr (h, v)"
      by auto
    with Some show ?thesis by (simp add: topKAnomalies_def ebind_def)
  qed
next
  fix y assume k: "1 \<le> k" and y: "topKWithPruning regionTree k = Some y"
  show "\<exists>r. y = Inr r"
  proof (cases regionTree)
    case None
    with y show ?thesis by (auto simp: topKWithPruning_def)
  next
    case (Some t)
    with y obtain z where z: "pruning_loop k (elems (nodes t)) [0] ([], 0, 0) = Some z"
      and yz: "y = ebind z (\<lambda>(minHeap, visited, pruned).
                 Inr \<lparr>regions = rev (drain minHeap), nodesVisited = visited,
                      nodesPruned = pruned\<rparr>)"
      by (auto simp: topKWithPruning_def Option.bind_eq_Some_conv)
    from pruning_loop_safe [OF z k] obtain h v p where "z = Inr (h, v, p)"
      by (metis prod_cases3)
    with yz show ?thesis by (simp add: ebind_def)
  qed
next
  assume k: "1 \<le> k" and fw: "forward_children (elems (nodes tree))"
  from pruning_loop_terminates [OF k fw, of "[0]" "([], 0, 0)"] obtain h v p where
    "pruning_loop k (elems (nodes tree)) [0] ([], 0, 0) = Some (Inr (h, v, p))"
    by (metis prod_cases3)
  then show "\<exists>r. topKWithPruning (Some tree) k = Some (Inr r)"
    by (simp add: topKWithPruning_def ebind_def)
next
  assume "k \<le> 0 \<and> (\<exists>n\<in>set (elems (nodes tree)). \<not> leafOnly \<or> isLeaf n)"
  then show "topKAnomalies (Some tree) k leafOnly = Inl EmptyQueue"
    by (simp add: topKAnomalies_def topK_loop_empty_top ebind_def)
next
  assume "k \<le> 0 \<and> elems (nodes tree) \<noteq> []"
  then show "topKWithPruning (Some tree) k = Some (Inl EmptyQueue)"
    by (simp add: topKWithPruning_def pruning_loop_empty_top ebind_def)
qed

theorem top_read_guarded_witness:
  "(\<exists>r. topKAnomalies (Some example_tree) 1 True = Inr r)
   \<and> forward_children (elems (nodes example_tree))
   \<and> (\<exists>r. topKWithPruning (Some example_tree) 1 = Some (Inr r))
   \<and> (0::int) \<le> 0 \<and> isLeaf (elems (nodes example_tree) ! 2)
   \<and> topKAnomalies (Some example_tree) 0 True = Inl EmptyQueue
   \<and> elems (nodes example_tree) \<noteq> []
   \<and> topKWithPruning (Some example_tree) 0 = Some (Inl EmptyQueue)"
proof -
  have fw: "forward_children (elems (nodes example_tree))"
    by code_simp
  have lf: "isLeaf (elems (nodes example_tree) ! 2)"
    and mem: "elems (nodes example_tree) ! 2 \<in> set (elems (nodes example_tree))"
    and ne: "elems (nodes example_tree) \<noteq> []"
    by code_simp+
  note T1 = top_read_guarded [of 1 "Some example_tree" True example_tree]
  note T0 = top_read_guarded [of 0 "Some example_tree" True example_tree]
  from T1 have a: "\<exists>r. topKAnomalies (Some example_tree) 1 True = Inr r" by simp
  from T1 fw have b: "\<exists>r. topKWithPruning (Some example_tree) 1 = Some (Inr r)" by simp
  from lf mem have "\<exists>n\<in>set (elems (nodes example_tree)). \<not> True \<or> isLeaf n" by blast
  with T0 have c: "topKAnomalies (Some example_tree) 0 True = Inl EmptyQueue" by simp
  from T0 ne have d: "topKWithPruning (Some example_tree) 0 = Some (Inl EmptyQueue)" by simp
  from a b c d fw lf ne show ?thesis by simp
qed


end
